theory Spec2Isabelle
  imports Complex_Main "HOL-Library.AList"
begin

section \<open>The configuration service of src/app/core/config.service.js\<close>

text \<open>
  The service keeps three pieces of state (\<open>service.data\<close>, \<open>initializePromise\<close>,
  \<open>isInitialized\<close>) and offers \<open>initialize\<close>, \<open>getCurrent\<close> and \<open>ready\<close>. Its collaborators
  (\<open>$rootElement\<close>, \<open>angular.fromJson\<close>, \<open>$http\<close>, \<open>$q\<close>, \<open>$translate\<close>, the defaults object) are
  not part of the file: the attribute reader, the JSON parser, the defaults and the text of
  a number are parameters of the model, responses of \<open>$http\<close> arrive as events, and \<open>$q\<close>
  promises are cells of an explicit store that settle at most once.
\<close>

subsection \<open>JavaScript values\<close>

text \<open>
  What \<open>angular.fromJson\<close> can return. A number is kept as a rational: this module only
  tests numbers against zero and copies them. An object is the list of its own keys in
  insertion order.
\<close>

datatype json =
    JNull
  | JBool bool
  | JNum rat
  | JStr string
  | JArr "json list"
  | JObj "(string \<times> json) list"

text \<open>The truth value JavaScript gives a value in \<open>if (v)\<close>, \<open>!v\<close> and \<open>a || b\<close>.\<close>

fun truthy :: "json \<Rightarrow> bool" where
  "truthy JNull = False"
| "truthy (JBool b) = b"
| "truthy (JNum n) = (n \<noteq> 0)"
| "truthy (JStr t) = (t \<noteq> [])"
| "truthy (JArr xs) = True"
| "truthy (JObj kvs) = True"

text \<open>A variable that may still be \<open>undefined\<close> is an option; \<open>undefined\<close> is falsy.\<close>

definition truthy_opt :: "json option \<Rightarrow> bool" where
  "truthy_opt v = (case v of None \<Rightarrow> False | Some j \<Rightarrow> truthy j)"

text \<open>
  \<open>if (configAttr)\<close>, \<open>if (langAttr)\<close> and the left operand of \<open>||\<close> in \<open>getCurrent\<close> test a
  string that may be \<open>undefined\<close>: the test passes for a non-empty string only.
  \<open>declared a\<close> is the string when the test passes.
\<close>

definition declared :: "string option \<Rightarrow> string option" where
  "declared a = (case a of None \<Rightarrow> None | Some t \<Rightarrow> if t = [] then None else Some t)"

datatype error = TypeError

subsection \<open>Strings: \<open>replace\<close> and \<open>split\<close>\<close>

text \<open>
  \<open>find_first pat t\<close> cuts \<open>t\<close> around the leftmost occurrence of \<open>pat\<close>: the text in front
  of it and the text behind it.
\<close>

fun find_first :: "string \<Rightarrow> string \<Rightarrow> (string \<times> string) option" where
  "find_first pat [] = (if pat = [] then Some ([], []) else None)"
| "find_first pat (c # cs) =
     (if take (length pat) (c # cs) = pat then Some ([], drop (length pat) (c # cs))
      else (case find_first pat cs of
              None \<Rightarrow> None
            | Some (pre, post) \<Rightarrow> Some (c # pre, post)))"

text \<open>
  \<open>String.prototype.replace\<close> expands the replacement text and then inserts it: \<open>$$\<close> is a
  dollar sign, \<open>$&\<close> the matched text, \<open>$`\<close> the text in front of the match and \<open>$'\<close> the
  text behind it. With a string pattern there are no capture groups, so every other \<open>$\<close> stays as
  it is.
\<close>

fun get_substitution :: "string \<Rightarrow> string \<Rightarrow> string \<Rightarrow> string \<Rightarrow> string" where
  "get_substitution matched pre post [] = []"
| "get_substitution matched pre post [c] = [c]"
| "get_substitution matched pre post (c # d # r) =
     (if c = CHR ''$'' then
        (if d = CHR ''$'' then CHR ''$'' # get_substitution matched pre post r
         else if d = CHR ''&'' then matched @ get_substitution matched pre post r
         else if d = CHR 0x60 then pre @ get_substitution matched pre post r
         else if d = CHR 0x27 then post @ get_substitution matched pre post r
         else c # get_substitution matched pre post (d # r))
      else c # get_substitution matched pre post (d # r))"

text \<open>\<open>t.replace(pat, repl)\<close> with a string pattern: the leftmost occurrence only.\<close>

definition js_replace :: "string \<Rightarrow> string \<Rightarrow> string \<Rightarrow> string" where
  "js_replace t pat repl =
     (case find_first pat t of
        None \<Rightarrow> t
      | Some (pre, post) \<Rightarrow> pre @ get_substitution pat pre post repl @ post)"

text \<open>\<open>t.split(sep)\<close> for a one-character separator; the result is never empty.\<close>

fun split :: "char \<Rightarrow> string \<Rightarrow> string list" where
  "split sep [] = [[]]"
| "split sep (c # cs) =
     (if c = sep then [] # split sep cs
      else (case split sep cs of
              [] \<Rightarrow> [[c]]
            | part # parts \<Rightarrow> (c # part) # parts))"

subsection \<open>Merging over the defaults\<close>

text \<open>
  Modelled from the spec: \<open>angular.merge\<close>, a function of the AngularJS library that
  \<open>configInitialized\<close> calls and that is not in this repository. The spec's merge policy: the
  loaded config overrides the base key by key; where both sides hold a mapping under a key
  the merge goes on inside it; any other value replaces what was there.
\<close>

fun merge_value :: "json option \<Rightarrow> json \<Rightarrow> json"
  and merge_keys :: "(string \<times> json) list \<Rightarrow> (string \<times> json) list \<Rightarrow> (string \<times> json) list" where
  "merge_value old (JObj src) =
     JObj (merge_keys (case old of Some (JObj dst) \<Rightarrow> dst | _ \<Rightarrow> []) src)"
| "merge_value old JNull = JNull"
| "merge_value old (JBool b) = JBool b"
| "merge_value old (JNum n) = JNum n"
| "merge_value old (JStr t) = JStr t"
| "merge_value old (JArr xs) = JArr xs"
| "merge_keys dst [] = dst"
| "merge_keys dst ((key, src) # rest) =
     merge_keys (AList.update key (merge_value (map_of dst key) src) dst) rest"

text \<open>
  Modelled from the spec: one source of \<open>angular.merge\<close> merged into the destination. Only
  a mapping has keys to merge.
\<close>

fun merge_source :: "(string \<times> json) list \<Rightarrow> json \<Rightarrow> (string \<times> json) list" where
  "merge_source dst (JObj src) = merge_keys dst src"
| "merge_source dst other = dst"

text \<open>
  Modelled from the spec: \<open>angular.merge(dst, src1, src2, ...)\<close>, the sources merged into
  \<open>dst\<close> from left to right, so that a later source overrides an earlier one.
\<close>

definition angular_merge :: "(string \<times> json) list \<Rightarrow> json list \<Rightarrow> (string \<times> json) list" where
  "angular_merge dst srcs = foldl merge_source dst srcs"

subsection \<open>Conversion to a string\<close>

text \<open>
  JavaScript's ToString on a value that \<open>angular.fromJson\<close> returned, as applied to the
  replacement text of \<open>replace\<close> and to a property key; \<open>None\<close>: it throws a TypeError.
  An array is the join of its elements with commas, \<open>null\<close> elements giving the empty
  string. A parsed object holds no function: when it has an own property \<open>toString\<close>, that
  property hides the inherited method, the inherited \<open>valueOf\<close> (or an own property of that
  name) yields no primitive either, and the conversion throws; every other object is
  \<open>[object Object]\<close>. The text of a number is a parameter.
\<close>

fun to_string :: "(rat \<Rightarrow> string) \<Rightarrow> json \<Rightarrow> string option"
  and join_strings :: "(rat \<Rightarrow> string) \<Rightarrow> json list \<Rightarrow> string option" where
  "to_string num JNull = Some ''null''"
| "to_string num (JBool b) = Some (if b then ''true'' else ''false'')"
| "to_string num (JNum n) = Some (num n)"
| "to_string num (JStr t) = Some t"
| "to_string num (JArr xs) = join_strings num xs"
| "to_string num (JObj kvs) =
     (if ''toString'' \<in> set (map fst kvs) then None else Some ''[object Object]'')"
| "join_strings num [] = Some []"
| "join_strings num (x # xs) =
     (case (if x = JNull then Some [] else to_string num x) of
        None \<Rightarrow> None
      | Some a \<Rightarrow>
          (if xs = [] then Some a
           else (case join_strings num xs of
                   None \<Rightarrow> None
                 | Some b \<Rightarrow> Some (a @ '','' @ b))))"

subsection \<open>Reading a property of a plain object\<close>

text \<open>
  \<open>service.data\<close> is an object literal, so \<open>service.data[key]\<close> looks beyond the own
  properties: into the prototype, which is \<open>Object.prototype\<close> unless an assignment to
  \<open>__proto__\<close> has replaced it by another object (whose own prototype is \<open>Object.prototype\<close>
  again). An object is represented by the list of its own properties; the object an
  assignment to \<open>__proto__\<close> has made its prototype is kept in that list under the name
  \<open>__proto__\<close>, which is also what reading \<open>__proto__\<close> returns.
\<close>

definition object_prototype :: "string list" where
  "object_prototype =
     [''constructor'', ''hasOwnProperty'', ''isPrototypeOf'', ''propertyIsEnumerable'',
      ''toLocaleString'', ''toString'', ''valueOf'', ''__proto__'',
      ''__defineGetter__'', ''__defineSetter__'', ''__lookupGetter__'', ''__lookupSetter__'']"

text \<open>
  What a read returns: \<open>undefined\<close>, a value of the configuration, or the member of
  \<open>Object.prototype\<close> of the given name (a function, or \<open>Object.prototype\<close> itself).
\<close>

datatype js_value = Undefined | Value json | Builtin string

definition inherited :: "string \<Rightarrow> js_value" where
  "inherited key = (if key \<in> set object_prototype then Builtin key else Undefined)"

definition js_get :: "(string \<times> json) list \<Rightarrow> string \<Rightarrow> js_value" where
  "js_get obj key =
     (case map_of obj key of
        Some v \<Rightarrow> Value v
      | None \<Rightarrow>
          (case map_of obj ''__proto__'' of
             Some (JObj proto) \<Rightarrow>
               (case map_of proto key of Some v \<Rightarrow> Value v | None \<Rightarrow> inherited key)
           | _ \<Rightarrow> inherited key))"

subsection \<open>Collaborators and state\<close>

record env =
  attr :: "string \<Rightarrow> string option"
  fromJson :: "string \<Rightarrow> json option"
  configDefaults :: json
  numberToString :: "rat \<Rightarrow> string"

text \<open>
  \<open>attr env name\<close> is \<open>$rootElement.attr(name)\<close> (\<open>None\<close>: undefined); \<open>fromJson env t\<close> is
  \<open>angular.fromJson(t)\<close> on a string (\<open>None\<close>: it throws); \<open>numberToString env n\<close> is the text
  JavaScript gives the number \<open>n\<close>.
\<close>

definition js_string :: "env \<Rightarrow> json \<Rightarrow> string option" where
  "js_string env v = to_string (numberToString env) v"

datatype pstate = Pending | Fulfilled | Rejected

text \<open>Everything the service does to the outside, in the order it does it.\<close>

datatype effect =
    ReadAttr string
  | FromJson string
  | HttpGet string
  | ConsoleLog string
  | ConsoleError string
  | ConsoleLogError

text \<open>
  \<open>data\<close> is \<open>service.data\<close>, represented as said above. \<open>heap\<close> holds the \<open>$q\<close> promises made
  by \<open>initialize\<close>; a promise is its index. \<open>inflight\<close> lists the chains
  \<open>$http.get(url).then(..).catch(..)\<close> that have not settled: the number of the request
  (\<open>requested\<close> counts the calls of \<open>$http.get\<close>), the property key of the language, the URL,
  and the promise whose \<open>reject\<close> the \<open>catch\<close> callback holds. \<open>joining\<close> is the promise whose
  \<open>fulfill\<close> the callback of \<open>$q.all(promises).then\<close> holds, for as long as that callback has
  not run.
\<close>

record state =
  data :: "(string \<times> json) list"
  initializePromise :: "nat option"
  isInitialized :: bool
  heap :: "pstate list"
  inflight :: "(nat \<times> string \<times> string \<times> nat) list"
  requested :: nat
  joining :: "nat option"
  trace :: "effect list"

definition init_state :: state where
  "init_state = \<lparr>data = [], initializePromise = None, isInitialized = False, heap = [],
     inflight = [], requested = 0, joining = None, trace = []\<rparr>"

definition emit :: "effect list \<Rightarrow> state \<Rightarrow> state" where
  "emit es s = s\<lparr>trace := trace s @ es\<rparr>"

text \<open>A promise settles once: \<open>fulfill\<close> and \<open>reject\<close> on a settled promise do nothing.\<close>

definition settle :: "nat \<Rightarrow> pstate \<Rightarrow> state \<Rightarrow> state" where
  "settle p v s =
     (if p < length (heap s) \<and> heap s ! p = Pending then s\<lparr>heap := (heap s)[p := v]\<rparr> else s)"

definition fulfill :: "nat \<Rightarrow> state \<Rightarrow> state" where
  "fulfill p s = settle p Fulfilled s"

definition reject :: "nat \<Rightarrow> state \<Rightarrow> state" where
  "reject p s = settle p Rejected s"

definition status :: "state \<Rightarrow> nat \<Rightarrow> pstate" where
  "status s p = heap s ! p"

subsection \<open>\<open>initialize\<close>\<close>

text \<open>
  \<open>configInitialized(config, lang)\<close>: \<open>service.data[lang] = {}\<close>, then
  \<open>angular.merge(service.data[lang], configDefaults, config)\<close>. For the language
  \<open>__proto__\<close> the assignment makes the new object the prototype of \<open>service.data\<close> and the
  merge goes into that prototype.
\<close>

definition configInitialized :: "env \<Rightarrow> json \<Rightarrow> string \<Rightarrow> state \<Rightarrow> state" where
  "configInitialized env config lang s =
     s\<lparr>data := AList.update lang (JObj (angular_merge [] [configDefaults env, config])) (data s)\<rparr>"

text \<open>
  The first \<open>try\<close>: \<open>configJson = angular.fromJson(configAttr)\<close> and
  \<open>configInitialized(configJson, 'en')\<close>, or the line on the console; \<open>configJson\<close> stays
  undefined when the parser throws.
\<close>

definition parse_config :: "env \<Rightarrow> string \<Rightarrow> state \<Rightarrow> json option \<times> state" where
  "parse_config env configAttr s =
     (case fromJson env configAttr of
        Some configJson \<Rightarrow>
          (Some configJson, configInitialized env configJson ''en'' (emit [FromJson configAttr] s))
      | None \<Rightarrow>
          (None, emit [FromJson configAttr,
                       ConsoleLog ''Not valid JSON, attempting to load a file with this name''] s))"

text \<open>\<open>if (langAttr) { try { langs = angular.fromJson(langAttr) } catch ... }\<close>\<close>

definition parse_langs :: "env \<Rightarrow> string option \<Rightarrow> state \<Rightarrow> json option \<times> state" where
  "parse_langs env langAttr s =
     (case declared langAttr of
        None \<Rightarrow> (None, s)
      | Some t \<Rightarrow>
          (case fromJson env t of
             Some langs \<Rightarrow> (Some langs, emit [FromJson t] s)
           | None \<Rightarrow>
               (None, emit [FromJson t,
                            ConsoleLog ''Could not parse langs, defaulting to en and fr''] s)))"

text \<open>\<open>if (!langs) { langs = ['en', 'fr'] }\<close>\<close>

definition default_langs :: "json option \<Rightarrow> json" where
  "default_langs langs =
     (case langs of
        None \<Rightarrow> JArr [JStr ''en'', JStr ''fr'']
      | Some l \<Rightarrow> if truthy l then l else JArr [JStr ''en'', JStr ''fr''])"

text \<open>
  \<open>$http.get(url).then(..).catch(..)\<close> inside the executor of the promise \<open>p\<close>, for the
  language with property key \<open>lang\<close>: the request goes out and its chain is in flight.
\<close>

definition http_get :: "string \<Rightarrow> string \<Rightarrow> nat \<Rightarrow> state \<Rightarrow> state" where
  "http_get url lang p s =
     (emit [HttpGet url] s)
       \<lparr>inflight := inflight s @ [(requested s, lang, url, p)], requested := Suc (requested s)\<rparr>"

text \<open>
  \<open>langs.map(lang => $http.get(configAttr.replace('$LANG', lang))...)\<close> on an array, one
  language after the other. \<open>replace\<close> converts \<open>lang\<close> to a string first; when that throws,
  \<open>map\<close> stops there, with the requests for the earlier languages already out.
\<close>

fun http_get_all :: "env \<Rightarrow> string \<Rightarrow> nat \<Rightarrow> json list \<Rightarrow> state \<Rightarrow> error option \<times> state" where
  "http_get_all env configAttr p [] s = (None, s)"
| "http_get_all env configAttr p (lang # langs) s =
     (case js_string env lang of
        None \<Rightarrow> (Some TypeError, s)
      | Some t \<Rightarrow>
          http_get_all env configAttr p langs
            (http_get (js_replace configAttr ''$LANG'' t) t p s))"

text \<open>
  The function passed to \<open>$q\<close>, for the promise \<open>p\<close> that \<open>$q\<close> has just made. The result is
  the exception it throws, if any: \<open>langs.map\<close> is not a function unless \<open>langs\<close> is an
  array, and \<open>map\<close> may throw as said. \<open>$q.all(promises).then\<close> is reached only when nothing
  has thrown. In the inline branch \<open>promises\<close> is one resolved promise.
\<close>

definition executor :: "env \<Rightarrow> nat \<Rightarrow> state \<Rightarrow> error option \<times> state" where
  "executor env p s0 =
     (let configAttr = attr env ''th-config'';
          langAttr = attr env ''rv-langs'';
          s = emit [ReadAttr ''th-config'', ReadAttr ''rv-langs''] s0
      in if isInitialized s then (None, fulfill p s)
         else (case declared configAttr of
                 Some c \<Rightarrow>
                   (let (configJson, s1) = parse_config env c s;
                        (parsed, s2) = parse_langs env langAttr s1;
                        langs = default_langs parsed
                    in if \<not> truthy_opt configJson then
                         (case langs of
                            JArr ls \<Rightarrow>
                              (case http_get_all env c p ls s2 of
                                 (Some e, s3) \<Rightarrow> (Some e, s3)
                               | (None, s3) \<Rightarrow> (None, s3\<lparr>joining := Some p\<rparr>))
                          | _ \<Rightarrow> (Some TypeError, s2))
                       else (None, s2\<lparr>joining := Some p\<rparr>))
               | None \<Rightarrow> (None, configInitialized env (JObj []) ''en'' s)))"

text \<open>
  \<open>initialize()\<close>: the stored promise if there is one; otherwise \<open>$q\<close> makes a promise and
  calls the executor at once. \<open>$q\<close> calls it unprotected, so an exception thrown in it leaves
  \<open>initialize\<close> with \<open>initializePromise\<close> still unassigned.
\<close>

definition initialize :: "env \<Rightarrow> state \<Rightarrow> (error + nat) \<times> state" where
  "initialize env s =
     (case initializePromise s of
        Some p \<Rightarrow> (Inr p, s)
      | None \<Rightarrow>
          (let p = length (heap s);
               (thrown, s') = executor env p (s\<lparr>heap := heap s @ [Pending]\<rparr>)
           in case thrown of
                Some e \<Rightarrow> (Inl e, s')
              | None \<Rightarrow> (Inr p, s'\<lparr>initializePromise := Some p\<rparr>)))"

subsection \<open>What happens once \<open>initialize\<close> has returned\<close>

text \<open>
  \<open>Ok d\<close>: the request succeeded and \<open>data.data\<close> is \<open>d\<close> (\<open>JNull\<close> also stands for a missing
  body). \<open>Fail\<close>: the request failed.
\<close>

datatype response = Ok json | Fail

datatype event = Digest | Response nat response

text \<open>
  The callback of \<open>$q.all(promises).then\<close>, run by the digest once every chain made by the
  executor of that promise has resolved: \<open>isInitialized = true; fulfill()\<close>.
\<close>

definition digest :: "state \<Rightarrow> state" where
  "digest s =
     (case joining s of
        None \<Rightarrow> s
      | Some p \<Rightarrow>
          if filter (\<lambda>f. snd (snd (snd f)) = p) (inflight s) = []
          then fulfill p (s\<lparr>isInitialized := True, joining := None\<rparr>) else s)"

text \<open>
  The two callbacks of a chain made by the executor of the promise \<open>p\<close>. Both return
  normally, so the chain itself resolves whatever the request did.
\<close>

definition on_response :: "env \<Rightarrow> string \<Rightarrow> nat \<Rightarrow> response \<Rightarrow> state \<Rightarrow> state" where
  "on_response env lang p r s =
     (case r of
        Ok d \<Rightarrow> if truthy d then configInitialized env d lang s else s
      | Fail \<Rightarrow> reject p (emit [ConsoleError ''Config initialization failed'', ConsoleLogError] s))"

text \<open>
  A response for a chain that is not in flight is no event of the program. After the
  callback of the chain the digest runs what has become ready.
\<close>

definition step :: "env \<Rightarrow> state \<Rightarrow> event \<Rightarrow> state" where
  "step env s e =
     (case e of
        Digest \<Rightarrow> digest s
      | Response k r \<Rightarrow>
          (case find (\<lambda>f. fst f = k) (inflight s) of
             None \<Rightarrow> s
           | Some f \<Rightarrow>
               digest ((on_response env (fst (snd f)) (snd (snd (snd f))) r s)
                         \<lparr>inflight := filter (\<lambda>f. fst f \<noteq> k) (inflight s)\<rparr>)))"

definition run :: "env \<Rightarrow> state \<Rightarrow> event list \<Rightarrow> state" where
  "run env s es = foldl (step env) s es"

text \<open>The states a run goes through, the first one included.\<close>

fun states :: "env \<Rightarrow> state \<Rightarrow> event list \<Rightarrow> state list" where
  "states env s [] = [s]"
| "states env s (e # es) = s # states env (step env s e) es"

text \<open>The first response in a list of events for the request number \<open>k\<close>.\<close>

fun first_response :: "nat \<Rightarrow> event list \<Rightarrow> response option" where
  "first_response k [] = None"
| "first_response k (Digest # es) = first_response k es"
| "first_response k (Response j r # es) = (if j = k then Some r else first_response k es)"

subsection \<open>\<open>getCurrent\<close>\<close>

text \<open>\<open>$translate.proposedLanguage()\<close> and \<open>$translate.use()\<close>; \<open>None\<close> is undefined.\<close>

record translate =
  proposedLanguage :: "string option"
  use :: "string option"

text \<open>
  \<open>(proposedLanguage() || use()).split('-')[0]\<close>, then \<open>service.data[currentLang]\<close>.
  \<open>split\<close> on undefined is a TypeError.
\<close>

definition getCurrent :: "translate \<Rightarrow> state \<Rightarrow> error + js_value" where
  "getCurrent tr s =
     (case (case declared (proposedLanguage tr) of Some t \<Rightarrow> Some t | None \<Rightarrow> use tr) of
        None \<Rightarrow> Inl TypeError
      | Some tag \<Rightarrow> Inr (js_get (data s) (hd (split CHR ''-'' tag))))"

subsection \<open>\<open>ready\<close>\<close>

text \<open>
  A promise seen at one moment: its state and what its callbacks have written on the
  console. \<open>q_all\<close> is \<open>$q.all\<close>: rejected as soon as one member is, resolved when all are.
  \<open>q_then\<close> is \<open>p.then(f)\<close> for a callback that writes \<open>out\<close> and returns a promise in state
  \<open>r\<close>; \<open>q_catch\<close> is \<open>p.catch(g)\<close> for a callback that writes \<open>out\<close> and returns normally.
\<close>

definition q_all :: "pstate list \<Rightarrow> pstate" where
  "q_all ps =
     (if Rejected \<in> set ps then Rejected
      else if Pending \<in> set ps then Pending
      else Fulfilled)"

definition q_then :: "pstate \<times> effect list \<Rightarrow> effect list \<Rightarrow> pstate \<Rightarrow> pstate \<times> effect list" where
  "q_then p out r =
     (case fst p of
        Fulfilled \<Rightarrow> (r, snd p @ out)
      | Rejected \<Rightarrow> (Rejected, snd p)
      | Pending \<Rightarrow> (Pending, snd p))"

definition q_catch :: "pstate \<times> effect list \<Rightarrow> effect list \<Rightarrow> pstate \<times> effect list" where
  "q_catch p out =
     (case fst p of
        Rejected \<Rightarrow> (Fulfilled, snd p @ out)
      | Fulfilled \<Rightarrow> (Fulfilled, snd p)
      | Pending \<Rightarrow> (Pending, snd p))"

text \<open>
  \<open>ready(nextPromises)\<close>, given the states the promises of \<open>nextPromises\<close> are in: the state
  of the promise it returns and the lines its callbacks have written. \<open>then\<close> of undefined
  is a TypeError.
\<close>

definition ready :: "state \<Rightarrow> pstate list \<Rightarrow> error + pstate \<times> effect list" where
  \<open>ready s nextPromises =
     (case initializePromise s of
        None \<Rightarrow> Inl TypeError
      | Some p \<Rightarrow>
          Inr (q_catch
                 (q_then (status s p, []) [ConsoleLog ''Ready promise resolved.'']
                    (q_all nextPromises))
                 [ConsoleLog ''"ready" function failed'']))\<close>

subsection \<open>Concrete collaborators for the examples\<close>

text \<open>
  A parser that knows the handful of texts the examples use and throws on every other one,
  a text for numbers that is right on 0 and 1 (no example converts a number), and the
  environment of a page that declares the two attributes as given.
\<close>

definition sample_fromJson :: "string \<Rightarrow> json option" where
  \<open>sample_fromJson t =
     (if t = ''{"title":"Granpa"}'' then Some (JObj [(''title'', JStr ''Granpa'')])
      else if t = ''0'' then Some (JNum 0)
      else if t = ''"en"'' then Some (JStr ''en'')
      else if t = ''["$&"]'' then Some (JArr [JStr ''$&''])
      else if t = ''["a$b"]'' then Some (JArr [JStr ''a$b''])
      else if t = ''["en","fr","de"]'' then Some (JArr [JStr ''en'', JStr ''fr'', JStr ''de''])
      else if t = ''["en",{"toString":1},"fr"]''
        then Some (JArr [JStr ''en'', JObj [(''toString'', JNum 1)], JStr ''fr''])
      else if t = ''["__proto__"]'' then Some (JArr [JStr ''__proto__''])
      else None)\<close>

definition sample_numberToString :: "rat \<Rightarrow> string" where
  "sample_numberToString n = (if n = 0 then ''0'' else ''1'')"

definition sample_defaults :: json where
  "sample_defaults =
     JObj [(''title'', JStr ''map''), (''layout'', JObj [(''lang'', JStr ''en'')])]"

definition sample_env :: "string option \<Rightarrow> string option \<Rightarrow> env" where
  "sample_env cfg langs =
     \<lparr>attr = (\<lambda>name. if name = ''th-config'' then cfg
                     else if name = ''rv-langs'' then langs else None),
      fromJson = sample_fromJson,
      configDefaults = sample_defaults,
      numberToString = sample_numberToString\<rparr>"

text \<open>Pages used in the examples, and states they reach.\<close>

definition absent_env :: env where
  "absent_env = sample_env None None"

definition url_env :: env where
  "url_env = sample_env (Some ''cfg.$LANG.json'') None"

definition url_started :: state where
  "url_started = snd (initialize url_env init_state)"

definition url_failed :: state where
  "url_failed = run url_env url_started [Response 1 Fail]"

definition url_loaded :: state where
  "url_loaded =
     run url_env url_started
       [Response 1 (Ok (JObj [(''title'', JStr ''carte'')])), Response 0 (Ok (JObj []))]"

definition url_half_loaded :: state where
  "url_half_loaded =
     run url_env url_started [Response 0 (Ok (JObj [])), Response 1 (Ok (JStr []))]"

definition bad_langs_env :: env where
  \<open>bad_langs_env = sample_env (Some ''cfg.$LANG.json'') (Some ''"en"'')\<close>

definition unconvertible_env :: env where
  \<open>unconvertible_env = sample_env (Some ''cfg.$LANG.json'') (Some ''["en",{"toString":1},"fr"]'')\<close>


definition dollar_env :: env where
  \<open>dollar_env = sample_env (Some ''cfg.$LANG.json'') (Some ''["$&"]'')\<close>

definition plain_dollar_env :: env where
  \<open>plain_dollar_env = sample_env (Some ''$LANG/cfg.$LANG.json'') (Some ''["a$b"]'')\<close>

definition proto_env :: env where
  \<open>proto_env = sample_env (Some ''cfg.$LANG.json'') (Some ''["__proto__"]'')\<close>

definition proto_loaded :: state where
  "proto_loaded =
     run proto_env (snd (initialize proto_env init_state))
       [Response 0 (Ok (JObj [(''en'', JStr ''hidden'')]))]"

definition zero_env :: env where
  "zero_env = sample_env (Some ''0'') None"

definition inline_env :: env where
  \<open>inline_env = sample_env (Some ''{"title":"Granpa"}'') (Some ''["en","fr","de"]'')\<close>

text \<open>\<open>n\<close> calls of \<open>initialize\<close> in a row: what each returned, and the state they leave.\<close>

fun calls :: "env \<Rightarrow> nat \<Rightarrow> state \<Rightarrow> (error + nat) list \<times> state" where
  "calls env 0 s = ([], s)"
| "calls env (Suc n) s =
     (let (r, s1) = initialize env s; (rs, s2) = calls env n s1 in (r # rs, s2))"

subsection \<open>Auxiliary notions\<close>

text \<open>
  The value \<open>langs\<close> has when the executor reaches \<open>langs.map\<close>: the parsed attribute, or
  the default list.
\<close>

definition language_list :: "env \<Rightarrow> json" where
  "language_list env = default_langs (fst (parse_langs env (attr env ''rv-langs'') init_state))"

text \<open>
  What parsing the language attribute writes on the trace, and the chains that \<open>langs.map\<close>
  puts in flight for the promise \<open>p\<close> when \<open>n\<close> requests went out before: one per language,
  up to the first language that does not convert to a string.
\<close>

definition language_trace :: "env \<Rightarrow> effect list" where
  "language_trace env =
     (case declared (attr env ''rv-langs'') of
        None \<Rightarrow> []
      | Some t \<Rightarrow>
          FromJson t # (case fromJson env t of
             None \<Rightarrow> [ConsoleLog ''Could not parse langs, defaulting to en and fr'']
           | Some l \<Rightarrow> []))"

fun requests :: "env \<Rightarrow> string \<Rightarrow> nat \<Rightarrow> nat \<Rightarrow> json list \<Rightarrow> (nat \<times> string \<times> string \<times> nat) list" where
  "requests env c p n [] = []"
| "requests env c p n (l # ls) =
     (case js_string env l of
        None \<Rightarrow> []
      | Some t \<Rightarrow> (n, t, js_replace c ''$LANG'' t, p) # requests env c p (Suc n) ls)"

text \<open>
  A replacement text in which some dollar sign is followed by one of the four characters
  that make a pattern of \<open>replace\<close>: \<open>$$\<close>, \<open>$&\<close>, \<open>$`\<close>, \<open>$'\<close>.
\<close>

fun has_dollar_pattern :: "string \<Rightarrow> bool" where
  "has_dollar_pattern (c # d # r) =
     (c = CHR ''$'' \<and> d \<in> {CHR ''$'', CHR ''&'', CHR 0x60, CHR 0x27}
      \<or> has_dollar_pattern (d # r))"
| "has_dollar_pattern r = False"

text \<open>
  The invariant of the promise \<open>p\<close> that \<open>initialize\<close> returned: every chain in flight was
  made by its executor, and either the callback of \<open>$q.all\<close> is still to run and \<open>p\<close> has not
  been resolved, or it has run (or there never was one) and nothing is in flight.
\<close>

definition waiting :: "nat \<Rightarrow> state \<Rightarrow> bool" where
  "waiting p s \<longleftrightarrow>
     p < length (heap s) \<and>
     (\<forall>f\<in>set (inflight s). snd (snd (snd f)) = p) \<and>
     (joining s = Some p \<and> status s p \<noteq> Fulfilled \<or> joining s = None \<and> inflight s = [])"

section \<open>Properties\<close>

subsection \<open>Strings\<close>

lemma split_not_Nil: "split sep t \<noteq> []"
  by (induction t) (auto split: list.splits)

lemma hd_split: "hd (split sep t) = takeWhile (\<lambda>c. c \<noteq> sep) t"
  by (induction t) (auto split: list.splits simp: split_not_Nil)

lemma get_substitution_plain:
  "\<not> has_dollar_pattern repl \<Longrightarrow> get_substitution m b a repl = repl"
  by (induction m b a repl rule: get_substitution.induct) auto

lemma find_first_Some:
  "find_first pat t = Some (b, a) \<Longrightarrow>
     t = b @ pat @ a \<and> (\<forall>b' a'. t = b' @ pat @ a' \<longrightarrow> length b \<le> length b')"
proof (induction t arbitrary: b)
  case Nil
  then show ?case by (auto split: if_splits)
next
  case (Cons c cs)
  show ?case
  proof (cases "take (length pat) (c # cs) = pat")
    case True
    with Cons.prems have "b = []" "a = drop (length pat) (c # cs)" by auto
    with True show ?thesis
      by (metis append_Nil append_take_drop_id le0 list.size(3))
  next
    case False
    with Cons.prems obtain b0 where b0: "find_first pat cs = Some (b0, a)" "b = c # b0"
      by (auto split: option.splits)
    from Cons.IH [OF b0(1)] have ih: "cs = b0 @ pat @ a"
      "\<forall>b' a'. cs = b' @ pat @ a' \<longrightarrow> length b0 \<le> length b'" by auto
    have "length b \<le> length b'" if "c # cs = b' @ pat @ a'" for b' a'
    proof (cases b')
      case Nil
      with that have "take (length pat) (c # cs) = pat" by simp
      with False show ?thesis by simp
    next
      case (Cons x xs)
      with that have "cs = xs @ pat @ a'" by simp
      with ih(2) have "length b0 \<le> length xs" by blast
      with Cons b0(2) show ?thesis by simp
    qed
    with ih(1) b0(2) show ?thesis by simp
  qed
qed

lemma find_first_None: "find_first pat t = None \<Longrightarrow> t \<noteq> b @ pat @ a"
proof (induction t arbitrary: b)
  case Nil
  then show ?case by (auto split: if_splits)
next
  case (Cons c cs)
  then have nt: "take (length pat) (c # cs) \<noteq> pat" and n: "find_first pat cs = None"
    by (auto split: if_splits option.splits)
  show ?case
  proof (cases b)
    case Nil
    show ?thesis
    proof
      assume "c # cs = b @ pat @ a"
      with Nil have "take (length pat) (c # cs) = pat" by simp
      with nt show False by simp
    qed
  next
    case (Cons x xs)
    with Cons.IH [OF n, of xs] show ?thesis by auto
  qed
qed

text \<open>
  With no dollar pattern in the replacement, \<open>replace\<close> puts the replacement in the place
  of the leftmost occurrence of the pattern and copies the rest; with no occurrence the
  text is unchanged.
\<close>

lemma js_replace_first:
  assumes "\<not> has_dollar_pattern repl"
  shows "(\<exists>b a. t = b @ pat @ a \<and> (\<forall>b' a'. t = b' @ pat @ a' \<longrightarrow> length b \<le> length b') \<and>
                 js_replace t pat repl = b @ repl @ a)
         \<or> ((\<forall>b a. t \<noteq> b @ pat @ a) \<and> js_replace t pat repl = t)"
proof (cases "find_first pat t")
  case None
  then show ?thesis
    using find_first_None [OF None] by (simp add: js_replace_def)
next
  case (Some ba)
  obtain b a where ba: "ba = (b, a)" by (cases ba)
  from find_first_Some [OF Some [unfolded ba]] Some ba assms show ?thesis
    by (auto simp: js_replace_def get_substitution_plain)
qed

subsection \<open>Merging\<close>

text \<open>
  Key by key: a key of the source takes the merged value, every other key keeps what the
  destination had.
\<close>

lemma map_of_merge_keys:
  "distinct (map fst src) \<Longrightarrow>
   map_of (merge_keys dst src) k =
     (case map_of src k of
        None \<Rightarrow> map_of dst k
      | Some v \<Rightarrow> Some (merge_value (map_of dst k) v))"
proof (induction src arbitrary: dst)
  case Nil
  then show ?case by simp
next
  case (Cons kv src)
  obtain key v where kv: "kv = (key, v)" by (cases kv)
  from Cons.prems kv have d: "distinct (map fst src)" and n: "map_of src key = None"
    by (auto simp: map_of_eq_None_iff)
  show ?case
    using Cons.IH [OF d, of "AList.update key (merge_value (map_of dst key) v) dst"] n
    by (auto simp: kv update_conv' split: option.splits)
qed

lemma keys_update: "fst ` set (AList.update k v al) = insert k (fst ` set al)"
  by (induction al) auto

subsection \<open>Promises settle once\<close>

lemma settle_fields [simp]:
  "joining (settle q v s) = joining s"
  "inflight (settle q v s) = inflight s"
  "data (settle q v s) = data s"
  "trace (settle q v s) = trace s"
  "requested (settle q v s) = requested s"
  "length (heap (settle q v s)) = length (heap s)"
  by (simp_all add: settle_def)

lemma settle_not_fulfilled:
  "v \<noteq> Fulfilled \<Longrightarrow> status s p \<noteq> Fulfilled \<Longrightarrow> status (settle q v s) p \<noteq> Fulfilled"
  by (cases "q = p") (auto simp: settle_def status_def)

lemma status_settle: "status s p \<noteq> Pending \<Longrightarrow> status (settle q v s) p = status s p"
  by (cases "q = p") (auto simp: status_def settle_def)

subsection \<open>One step\<close>

lemma step_idle: "joining s = None \<Longrightarrow> inflight s = [] \<Longrightarrow> step env s e = s"
  by (simp add: step_def digest_def split: event.splits)

lemma initializePromise_step [simp]: "initializePromise (step env s e) = initializePromise s"
  by (simp add: step_def digest_def on_response_def fulfill_def reject_def settle_def emit_def
      configInitialized_def Let_def split: event.splits option.splits response.splits)

lemma heap_length_step [simp]: "length (heap (step env s e)) = length (heap s)"
  by (auto simp: step_def digest_def on_response_def fulfill_def reject_def settle_def emit_def
      configInitialized_def Let_def split: event.splits option.splits response.splits)

lemma inflight_digest [simp]: "inflight (digest s) = inflight s"
  by (simp add: digest_def fulfill_def settle_def split: option.splits)

lemma data_digest [simp]: "data (digest s) = data s"
  by (simp add: digest_def fulfill_def settle_def split: option.splits)

lemma find_None_filter:
  "find (\<lambda>f. fst f = k) xs = None \<Longrightarrow> filter (\<lambda>f. k \<noteq> fst f) xs = xs"
  by (induction xs) (auto split: if_splits)

lemma inflight_step:
  "inflight (step env s e) = filter (\<lambda>f. first_response (fst f) [e] = None) (inflight s)"
proof (cases e)
  case Digest
  then show ?thesis by (simp add: step_def)
next
  case (Response k r)
  show ?thesis
  proof (cases "find (\<lambda>f. fst f = k) (inflight s)")
    case None
    from find_None_filter [OF None] Response None show ?thesis
      by (simp add: step_def)
  next
    case (Some f)
    have "(\<lambda>f::nat \<times> string \<times> string \<times> nat. fst f \<noteq> k) = (\<lambda>f. k \<noteq> fst f)"
      by auto
    with Response Some show ?thesis by (simp add: step_def)
  qed
qed

lemma data_on_response:
  "data (on_response env lang q r s) =
     (case r of Ok d \<Rightarrow> if truthy d then AList.update lang
         (JObj (angular_merge [] [configDefaults env, d])) (data s) else data s
      | Fail \<Rightarrow> data s)"
  by (cases r)
     (auto simp: on_response_def configInitialized_def emit_def reject_def settle_def Let_def
       split: option.splits)

lemma data_step:
  "data (step env s e) =
     (case e of
        Digest \<Rightarrow> data s
      | Response k r \<Rightarrow>
          (case find (\<lambda>f. fst f = k) (inflight s) of
             None \<Rightarrow> data s
           | Some f \<Rightarrow> data (on_response env (fst (snd f)) (snd (snd (snd f))) r s)))"
  by (simp add: step_def split: event.splits option.splits)

lemma data_step_fail: "data (step env s (Response k Fail)) = data s"
  by (simp add: data_step data_on_response split: option.splits)

lemma keys_step: "fst ` set (data s) \<subseteq> fst ` set (data (step env s e))"
  by (auto simp: data_step data_on_response keys_update
      split: event.splits option.splits response.splits)

lemma keys_step_new:
  assumes "x \<in> fst ` set (data (step env s e))" and "x \<notin> fst ` set (data s)"
  shows "\<exists>f d. e = Response (fst f) (Ok d) \<and> truthy d \<and> f \<in> set (inflight s) \<and> x = fst (snd f)"
proof (cases e)
  case Digest
  with assms show ?thesis by (simp add: data_step)
next
  case (Response k r)
  show ?thesis
  proof (cases "find (\<lambda>f. fst f = k) (inflight s)")
    case None
    with assms Response show ?thesis by (simp add: data_step)
  next
    case (Some f)
    then have f: "f \<in> set (inflight s)" "fst f = k"
      by (auto simp: find_Some_iff)
    show ?thesis
    proof (cases r)
      case Fail
      with assms Response Some show ?thesis by (simp add: data_step data_on_response)
    next
      case (Ok d)
      with assms Response Some have "truthy d" "x = fst (snd f)"
        by (auto simp: data_step data_on_response keys_update split: if_splits)
      with f Response Ok show ?thesis by blast
    qed
  qed
qed

lemma distinct_step:
  "distinct (map fst (data s)) \<Longrightarrow> distinct (map fst (data (step env s e)))"
  by (auto simp: data_step data_on_response distinct_update
      split: event.splits option.splits response.splits)

lemma find_distinct:
  "distinct (map fst xs) \<Longrightarrow> f \<in> set xs \<Longrightarrow> find (\<lambda>g. fst g = fst f) xs = Some f"
proof (induction xs)
  case Nil
  then show ?case by simp
next
  case (Cons x xs)
  then show ?case by (cases "x = f") (auto simp: image_iff)
qed

lemma find_Some_iff_mem: "k \<in> fst ` set xs \<Longrightarrow> \<exists>f. find (\<lambda>f. fst f = k) xs = Some f"
  by (induction xs) auto

lemma stored_on_success:
  assumes "distinct (map fst (inflight s))" and "f \<in> set (inflight s)" and "truthy d"
  shows "fst (snd f) \<in> fst ` set (data (step env s (Response (fst f) (Ok d))))"
  using find_distinct [OF assms(1,2)] assms(3)
  by (simp add: data_step data_on_response keys_update)

lemma step_nothing_inflight:
  "inflight s = [] \<Longrightarrow>
   data (step env s e) = data s \<and> trace (step env s e) = trace s \<and> inflight (step env s e) = []"
  by (cases e) (auto simp: step_def digest_def fulfill_def settle_def split: option.splits)

lemma status_step: "status s p \<noteq> Pending \<Longrightarrow> status (step env s e) p = status s p"
proof -
  assume a: "status s p \<noteq> Pending"
  have f: "status (fulfill q t) p = status t p" if "status t p \<noteq> Pending" for q t
    using that by (simp add: fulfill_def status_settle)
  have r: "status (reject q t) p = status t p" if "status t p \<noteq> Pending" for q t
    using that by (simp add: reject_def status_settle)
  have d: "status (digest t) p = status t p" if "status t p \<noteq> Pending" for t
  proof (cases "joining t")
    case None
    then show ?thesis by (simp add: digest_def)
  next
    case (Some q)
    have "status (t\<lparr>isInitialized := True, joining := None\<rparr>) p \<noteq> Pending"
      using that by (simp add: status_def)
    from f [OF this] Some show ?thesis
      by (simp add: digest_def status_def)
  qed
  have o: "status (on_response env lang q x s) p = status s p" for lang q x
  proof (cases x)
    case (Ok dd)
    then show ?thesis by (simp add: on_response_def configInitialized_def status_def)
  next
    case Fail
    have "status (emit [ConsoleError ''Config initialization failed'', ConsoleLogError] s) p
        \<noteq> Pending"
      using a by (simp add: status_def emit_def)
    from r [OF this] Fail show ?thesis
      by (simp add: on_response_def status_def emit_def)
  qed
  show ?thesis
  proof (cases e)
    case Digest
    then show ?thesis by (simp add: step_def d [OF a])
  next
    case (Response k x)
    show ?thesis
    proof (cases "find (\<lambda>f. fst f = k) (inflight s)")
      case None
      with Response show ?thesis by (simp add: step_def)
    next
      case (Some f)
      let ?t = "(on_response env (fst (snd f)) (snd (snd (snd f))) x s)
                  \<lparr>inflight := filter (\<lambda>f. fst f \<noteq> k) (inflight s)\<rparr>"
      have "status ?t p = status s p"
        using o [of "fst (snd f)" "snd (snd (snd f))" x] by (simp add: status_def)
      with a d [of ?t] Response Some show ?thesis
        by (simp add: step_def)
    qed
  qed
qed

text \<open>The invariant is kept, and a failure of a request in flight rejects the promise.\<close>

lemma waiting_digest: "waiting p s \<Longrightarrow> waiting p (digest s)"
proof (cases "joining s")
  case None
  then show "waiting p s \<Longrightarrow> waiting p (digest s)" by (simp add: digest_def)
next
  case (Some q)
  assume w: "waiting p s"
  with Some have q: "q = p" by (auto simp: waiting_def)
  show "waiting p (digest s)"
  proof (cases "filter (\<lambda>f. snd (snd (snd f)) = p) (inflight s) = []")
    case True
    with w have "inflight s = []"
      by (auto simp: waiting_def filter_empty_conv)
    with w Some q True show ?thesis
      by (simp add: waiting_def digest_def fulfill_def)
  next
    case False
    with w Some q show ?thesis by (simp add: digest_def)
  qed
qed

lemma waiting_on_response:
  assumes "waiting p s"
  shows "waiting p ((on_response env lang p r s)\<lparr>inflight := filter P (inflight s)\<rparr>)"
proof (cases r)
  case (Ok d)
  with assms show ?thesis
    by (auto simp: waiting_def on_response_def configInitialized_def status_def)
next
  case Fail
  let ?s1 = "emit [ConsoleError ''Config initialization failed'', ConsoleLogError] s"
  have s1: "joining ?s1 = joining s" "inflight ?s1 = inflight s" "heap ?s1 = heap s"
    "status ?s1 p = status s p"
    by (simp_all add: emit_def status_def)
  show ?thesis
  proof (cases "joining s")
    case None
    with assms Fail s1 show ?thesis
      by (auto simp: waiting_def on_response_def reject_def)
  next
    case (Some q)
    with assms have q: "q = p" and nf: "status ?s1 p \<noteq> Fulfilled" and l: "p < length (heap s)"
      and o: "\<forall>f\<in>set (inflight s). snd (snd (snd f)) = p"
      using s1 by (auto simp: waiting_def)
    have "status (settle p Rejected ?s1) p \<noteq> Fulfilled"
      using settle_not_fulfilled [OF _ nf, of Rejected p] by simp
    with Some q l o Fail s1 show ?thesis
      by (simp add: waiting_def on_response_def reject_def status_def)
  qed
qed

lemma waiting_step: "waiting p s \<Longrightarrow> waiting p (step env s e)"
proof (cases e)
  case Digest
  then show "waiting p s \<Longrightarrow> waiting p (step env s e)"
    by (simp add: step_def waiting_digest)
next
  case (Response k r)
  assume w: "waiting p s"
  show "waiting p (step env s e)"
  proof (cases "find (\<lambda>f. fst f = k) (inflight s)")
    case None
    with Response w show ?thesis by (simp add: step_def)
  next
    case (Some f)
    then have "f \<in> set (inflight s)" by (auto simp: find_Some_iff)
    with w have "snd (snd (snd f)) = p" by (auto simp: waiting_def)
    with Response Some waiting_digest [OF waiting_on_response [OF w]] show ?thesis
      by (simp add: step_def)
  qed
qed

lemma rejected_on_failure:
  assumes w: "waiting p s" and k: "find (\<lambda>f. fst f = k) (inflight s) = Some f"
  shows "status (step env s (Response k Fail)) p = Rejected"
proof -
  from k have m: "f \<in> set (inflight s)" by (auto simp: find_Some_iff)
  then have "inflight s \<noteq> []" by auto
  with w m have nf: "status s p \<noteq> Fulfilled" and l: "p < length (heap s)"
    and o: "snd (snd (snd f)) = p"
    by (auto simp: waiting_def)
  let ?t = "on_response env (fst (snd f)) p Fail s"
  have "status ?t p = Rejected"
    using nf l
    by (cases "heap s ! p")
       (auto simp: on_response_def emit_def reject_def settle_def status_def)
  then have "status (?t\<lparr>inflight := filter (\<lambda>f. fst f \<noteq> k) (inflight s)\<rparr>) p = Rejected"
    by (simp add: status_def)
  then have "status (step env (?t\<lparr>inflight := filter (\<lambda>f. fst f \<noteq> k) (inflight s)\<rparr>) Digest) p
      = Rejected"
    using status_step [of "?t\<lparr>inflight := filter (\<lambda>f. fst f \<noteq> k) (inflight s)\<rparr>" p env Digest]
    by simp
  then show ?thesis
    using k o by (simp add: step_def)
qed

subsection \<open>Runs\<close>

lemma run_snoc: "run env s (es @ [e]) = step env (run env s es) e"
  by (simp add: run_def)

lemma run_Cons: "run env s (e # es) = run env (step env s e) es"
  by (simp add: run_def)

lemma run_append: "run env s (es @ es') = run env (run env s es) es'"
  by (simp add: run_def)

lemma run_idle: "joining s = None \<Longrightarrow> inflight s = [] \<Longrightarrow> run env s es = s"
  by (induction es) (simp_all add: run_def step_idle)

lemma initializePromise_run [simp]: "initializePromise (run env s es) = initializePromise s"
  unfolding run_def by (induction es arbitrary: s) simp_all

lemma status_run: "status s p \<noteq> Pending \<Longrightarrow> status (run env s es) p = status s p"
  unfolding run_def by (induction es arbitrary: s) (simp_all add: status_step)

lemma run_nothing_inflight:
  "inflight s = [] \<Longrightarrow>
   data (run env s es) = data s \<and> trace (run env s es) = trace s \<and> inflight (run env s es) = []"
  unfolding run_def
proof (induction es arbitrary: s)
  case Nil
  then show ?case by simp
next
  case (Cons e es)
  from step_nothing_inflight [OF Cons.prems, of env e] Cons.IH [of "step env s e"]
  show ?case by simp
qed

lemma waiting_run: "waiting p s \<Longrightarrow> waiting p (run env s es)"
  unfolding run_def by (induction es arbitrary: s) (simp_all add: waiting_step)

lemma distinct_run:
  "distinct (map fst (data s)) \<Longrightarrow> distinct (map fst (data (run env s es)))"
  unfolding run_def by (induction es arbitrary: s) (simp_all add: distinct_step)

lemma first_response_snoc:
  "first_response k (es @ [e]) =
     (case first_response k es of Some r \<Rightarrow> Some r | None \<Rightarrow> first_response k [e])"
  by (induction k es rule: first_response.induct) simp_all

lemma inflight_run:
  "inflight (run env s es) = filter (\<lambda>f. first_response (fst f) es = None) (inflight s)"
proof (induction es rule: rev_induct)
  case Nil
  then show ?case by (simp add: run_def)
next
  case (snoc e es)
  have "(\<lambda>f::nat \<times> string \<times> string \<times> nat.
           first_response (fst f) es = None \<and> first_response (fst f) [e] = None) =
        (\<lambda>f. first_response (fst f) (es @ [e]) = None)"
    by (auto simp: first_response_snoc split: option.splits)
  with snoc show ?case
    by (simp add: run_snoc inflight_step)
qed

lemma stored_after_success:
  assumes d: "distinct (map fst (inflight s))" and f: "f \<in> set (inflight s)"
    and r: "first_response (fst f) es = Some (Ok v)" and t: "truthy v"
  shows "fst (snd f) \<in> fst ` set (data (run env s es))"
  using r
proof (induction es rule: rev_induct)
  case Nil
  then show ?case by simp
next
  case (snoc e es)
  let ?s = "run env s es"
  show ?case
  proof (cases "first_response (fst f) es")
    case (Some r')
    with snoc.prems have "r' = Ok v" by (simp add: first_response_snoc)
    with snoc.IH Some have "fst (snd f) \<in> fst ` set (data ?s)" by simp
    with keys_step [of ?s env e] show ?thesis by (auto simp: run_snoc)
  next
    case None
    with snoc.prems have e: "first_response (fst f) [e] = Some (Ok v)"
      by (simp add: first_response_snoc)
    then have e': "e = Response (fst f) (Ok v)"
      by (cases e) (auto split: if_splits)
    have m: "f \<in> set (inflight ?s)" using f None by (simp add: inflight_run)
    have "distinct (map fst (inflight ?s))"
      using d by (simp add: inflight_run distinct_map_filter)
    from stored_on_success [OF this m t, of env] e' show ?thesis
      by (simp add: run_snoc)
  qed
qed

lemma rejected_after_failure:
  assumes w: "waiting p s" and f: "f \<in> set (inflight s)"
    and r: "first_response (fst f) es = Some Fail"
  shows "status (run env s es) p = Rejected"
  using r
proof (induction es rule: rev_induct)
  case Nil
  then show ?case by simp
next
  case (snoc e es)
  let ?s = "run env s es"
  show ?case
  proof (cases "first_response (fst f) es")
    case (Some r')
    with snoc.prems have "r' = Fail" by (simp add: first_response_snoc)
    with snoc.IH Some have "status ?s p = Rejected" by simp
    then show ?thesis by (simp add: run_snoc status_step)
  next
    case None
    with snoc.prems have "first_response (fst f) [e] = Some Fail"
      by (simp add: first_response_snoc)
    then have e': "e = Response (fst f) Fail"
      by (cases e) (auto split: if_splits)
    have "f \<in> set (inflight ?s)" using f None by (simp add: inflight_run)
    then have "fst f \<in> fst ` set (inflight ?s)" by (rule imageI)
    from find_Some_iff_mem [OF this]
    obtain g where "find (\<lambda>g. fst g = fst f) (inflight ?s) = Some g" ..
    from rejected_on_failure [OF waiting_run [OF w] this] e' show ?thesis
      by (simp add: run_snoc)
  qed
qed

lemma keys_run:
  "fst ` set (data (run env s es)) \<subseteq>
     fst ` set (data s) \<union>
     {fst (snd f) | f. f \<in> set (inflight s) \<and>
        (\<exists>d. first_response (fst f) es = Some (Ok d) \<and> truthy d)}"
proof (induction es rule: rev_induct)
  case Nil
  then show ?case by (simp add: run_def)
next
  case (snoc e es)
  let ?s = "run env s es"
  let ?K = "\<lambda>es. {fst (snd f) | f. f \<in> set (inflight s) \<and>
        (\<exists>d. first_response (fst f) es = Some (Ok d) \<and> truthy d)}"
  have mono: "?K es \<subseteq> ?K (es @ [e])"
  proof
    fix x
    assume "x \<in> ?K es"
    then obtain f d where "x = fst (snd f)" "f \<in> set (inflight s)"
      "first_response (fst f) es = Some (Ok d)" "truthy d" by blast
    moreover from this have "first_response (fst f) (es @ [e]) = Some (Ok d)"
      by (simp add: first_response_snoc)
    ultimately show "x \<in> ?K (es @ [e])" by blast
  qed
  show ?case
  proof
    fix x
    assume x: "x \<in> fst ` set (data (run env s (es @ [e])))"
    show "x \<in> fst ` set (data s) \<union> ?K (es @ [e])"
    proof (cases "x \<in> fst ` set (data ?s)")
      case True
      with snoc.IH mono show ?thesis by blast
    next
      case False
      from keys_step_new [OF x [unfolded run_snoc] False]
      obtain f d where fd: "e = Response (fst f) (Ok d)" "truthy d" "f \<in> set (inflight ?s)"
        "x = fst (snd f)" by blast
      from fd(3) have "f \<in> set (inflight s)" "first_response (fst f) es = None"
        by (simp_all add: inflight_run)
      with fd(1,2) have "f \<in> set (inflight s) \<and>
          (\<exists>d. first_response (fst f) (es @ [e]) = Some (Ok d) \<and> truthy d)"
        by (simp add: first_response_snoc)
      with fd(4) show ?thesis by blast
    qed
  qed
qed

lemma states_rejected:
  "status s p = Rejected \<Longrightarrow>
   map (\<lambda>s. status s p) (states env s es) = replicate (Suc (length es)) Rejected"
proof (induction es arbitrary: s)
  case Nil
  then show ?case by simp
next
  case (Cons e es)
  from Cons.prems have "status (step env s e) p = Rejected"
    by (simp add: status_step)
  from Cons.IH [OF this] Cons.prems show ?case by simp
qed

lemma statuses_until_failure:
  assumes "waiting p s" and "status s p = Pending"
    and "k \<in> fst ` set (inflight (run env s es1))"
  shows "\<exists>m n. 0 < m \<and> 0 < n \<and>
           map (\<lambda>s. status s p) (states env s (es1 @ Response k Fail # es2)) =
             replicate m Pending @ replicate n Rejected"
  using assms
proof (induction es1 arbitrary: s)
  case Nil
  then obtain f where "find (\<lambda>f. fst f = k) (inflight s) = Some f"
    using find_Some_iff_mem [of k "inflight s"] by (auto simp: run_def)
  from rejected_on_failure [OF Nil.prems(1) this]
  have "status (step env s (Response k Fail)) p = Rejected" .
  from states_rejected [OF this, of env es2] Nil.prems(2)
  have "map (\<lambda>s. status s p) (states env s ([] @ Response k Fail # es2)) =
      replicate 1 Pending @ replicate (Suc (length es2)) Rejected"
    by simp
  then show ?case by (metis zero_less_one zero_less_Suc)
next
  case (Cons e es1)
  let ?t = "step env s e"
  have w: "waiting p ?t" using Cons.prems(1) by (rule waiting_step)
  have k: "k \<in> fst ` set (inflight (run env ?t es1))"
    using Cons.prems(3) by (simp add: run_Cons)
  show ?case
  proof (cases "status ?t p")
    case Pending
    from Cons.IH [OF w Pending k] obtain m n where mn: "0 < m" "0 < n"
      "map (\<lambda>s. status s p) (states env ?t (es1 @ Response k Fail # es2)) =
         replicate m Pending @ replicate n Rejected"
      by blast
    with Cons.prems(2)
    have "map (\<lambda>s. status s p) (states env s ((e # es1) @ Response k Fail # es2)) =
        replicate (Suc m) Pending @ replicate n Rejected"
      by simp
    with mn(2) show ?thesis by (metis zero_less_Suc)
  next
    case Rejected
    from states_rejected [OF this, of env "es1 @ Response k Fail # es2"] Cons.prems(2)
    have "map (\<lambda>s. status s p) (states env s ((e # es1) @ Response k Fail # es2)) =
        replicate 1 Pending @ replicate (Suc (length (es1 @ Response k Fail # es2))) Rejected"
      by simp
    then show ?thesis by (metis zero_less_one zero_less_Suc)
  next
    case Fulfilled
    with w have "inflight ?t = []" by (auto simp: waiting_def)
    from run_nothing_inflight [OF this, of env es1] k show ?thesis by simp
  qed
qed

lemma joined_digest:
  assumes "waiting p s" and "joining s = Some p \<or> status s p \<noteq> Pending"
  shows "joining (digest s) = Some p \<or> status (digest s) p \<noteq> Pending"
proof (cases "joining s")
  case None
  with assms show ?thesis by (simp add: digest_def)
next
  case (Some q)
  with assms(1) have q: "q = p" and l: "p < length (heap s)" by (auto simp: waiting_def)
  show ?thesis
  proof (cases "filter (\<lambda>f. snd (snd (snd f)) = p) (inflight s) = []")
    case True
    with Some q l show ?thesis
      by (simp add: digest_def fulfill_def settle_def status_def)
  next
    case False
    with Some q show ?thesis by (simp add: digest_def)
  qed
qed

lemma joined_step:
  assumes w: "waiting p s" and j: "joining s = Some p \<or> status s p \<noteq> Pending"
  shows "joining (step env s e) = Some p \<or> status (step env s e) p \<noteq> Pending"
proof (cases e)
  case Digest
  with joined_digest [OF w j] show ?thesis by (simp add: step_def)
next
  case (Response k r)
  show ?thesis
  proof (cases "find (\<lambda>f. fst f = k) (inflight s)")
    case None
    with Response j show ?thesis by (simp add: step_def)
  next
    case (Some f)
    then have "f \<in> set (inflight s)" by (auto simp: find_Some_iff)
    with w have o: "snd (snd (snd f)) = p" by (auto simp: waiting_def)
    let ?t = "(on_response env (fst (snd f)) p r s)\<lparr>inflight := filter (\<lambda>f. fst f \<noteq> k) (inflight s)\<rparr>"
    have wt: "waiting p ?t" using w by (rule waiting_on_response)
    have jt: "joining ?t = Some p \<or> status ?t p \<noteq> Pending"
    proof (cases "joining s = Some p")
      case True
      then show ?thesis
        by (cases r) (simp_all add: on_response_def configInitialized_def reject_def emit_def)
    next
      case False
      with j have "status s p \<noteq> Pending" by simp
      then have "status (step env s (Response k r)) p = status s p"
        by (rule status_step)
      moreover have "status ?t p = status (on_response env (fst (snd f)) p r s) p"
        by (simp add: status_def)
      moreover have "status (on_response env (fst (snd f)) p r s) p \<noteq> Pending"
        using \<open>status s p \<noteq> Pending\<close>
        by (cases r)
           (simp_all add: on_response_def configInitialized_def reject_def status_def emit_def
             settle_def)
      ultimately show ?thesis by simp
    qed
    from joined_digest [OF wt jt] Response Some o show ?thesis
      by (simp add: step_def)
  qed
qed

lemma joined_run:
  "waiting p s \<Longrightarrow> joining s = Some p \<or> status s p \<noteq> Pending \<Longrightarrow>
   joining (run env s es) = Some p \<or> status (run env s es) p \<noteq> Pending"
proof (induction es arbitrary: s)
  case Nil
  then show ?case by (simp add: run_def)
next
  case (Cons e es)
  from Cons.IH [OF waiting_step [OF Cons.prems(1)] joined_step [OF Cons.prems]]
  show ?case by (simp add: run_Cons)
qed

lemma settled_after_digest:
  assumes w: "waiting p s" and j: "joining s = Some p \<or> status s p \<noteq> Pending"
    and i: "inflight s = []"
  shows "status (step env s Digest) p \<noteq> Pending"
proof (cases "joining s")
  case None
  with j have "status s p \<noteq> Pending" by simp
  then show ?thesis by (simp add: status_step)
next
  case (Some q)
  with w have "q = p" "p < length (heap s)" by (auto simp: waiting_def)
  with Some i show ?thesis
    by (simp add: step_def digest_def fulfill_def settle_def status_def)
qed

subsection \<open>What \<open>initialize\<close> leaves behind\<close>

lemma http_get_all_eq:
  "http_get_all env c p ls s =
     (if \<forall>l\<in>set ls. js_string env l \<noteq> None then None else Some TypeError,
      s\<lparr>inflight := inflight s @ requests env c p (requested s) ls,
        requested := requested s + length (requests env c p (requested s) ls),
        trace := trace s @ map (\<lambda>f. HttpGet (fst (snd (snd f)))) (requests env c p (requested s) ls)\<rparr>)"
proof (induction ls arbitrary: s)
  case Nil
  then show ?case by simp
next
  case (Cons l ls)
  show ?case
  proof (cases "js_string env l")
    case None
    then show ?thesis by simp
  next
    case (Some t)
    with Cons.IH [of "http_get (js_replace c ''$LANG'' t) t p s"] show ?thesis
      by (simp add: http_get_def emit_def)
  qed
qed

lemma requests_owner: "f \<in> set (requests env c p n ls) \<Longrightarrow> snd (snd (snd f)) = p"
  by (induction ls arbitrary: n) (auto split: option.splits)

lemma requests_numbers:
  "map fst (requests env c p n ls) = [n..<n + length (requests env c p n ls)]"
proof (induction ls arbitrary: n)
  case Nil
  then show ?case by simp
next
  case (Cons l ls)
  show ?case
  proof (cases "js_string env l")
    case None
    then show ?thesis by simp
  next
    case (Some t)
    have "[n..<n + Suc m] = n # [Suc n..<Suc n + m]" for m
      by (simp add: upt_conv_Cons del: upt_Suc)
    with Cons.IH [of "Suc n"] Some show ?thesis
      by (simp del: upt_Suc)
  qed
qed

lemma length_requests_le: "length (requests env c p n ls) \<le> length ls"
  by (induction ls arbitrary: n) (auto split: option.splits)

lemma length_requests:
  "length (requests env c p n ls) = length ls \<longleftrightarrow> (\<forall>l\<in>set ls. js_string env l \<noteq> None)"
proof (induction ls arbitrary: n)
  case Nil
  then show ?case by simp
next
  case (Cons l ls)
  then show ?case
    by (cases "js_string env l") auto
qed

lemma length_requests_takeWhile:
  "length (requests env c p n ls) = length (takeWhile (\<lambda>l. js_string env l \<noteq> None) ls)"
  by (induction ls arbitrary: n) (auto split: option.splits)

lemma nth_requests:
  "i < length (requests env c p n ls) \<Longrightarrow>
   \<exists>t. js_string env (ls ! i) = Some t \<and>
       requests env c p n ls ! i = (n + i, t, js_replace c ''$LANG'' t, p)"
proof (induction ls arbitrary: n i)
  case Nil
  then show ?case by simp
next
  case (Cons l ls)
  then obtain t where t: "js_string env l = Some t"
    by (cases "js_string env l") auto
  show ?case
  proof (cases i)
    case 0
    with t show ?thesis by simp
  next
    case (Suc j)
    with Cons.prems t have "j < length (requests env c p (Suc n) ls)" by simp
    from Cons.IH [OF this] Suc t show ?thesis by simp
  qed
qed

lemma fst_parse_langs: "fst (parse_langs env a s) = fst (parse_langs env a s')"
  by (simp add: parse_langs_def split: option.splits)

lemma parse_langs_state:
  "snd (parse_langs env (attr env ''rv-langs'') s) = emit (language_trace env) s"
  by (simp add: parse_langs_def emit_def language_trace_def split: option.splits)

lemma fst_parse_config: "fst (parse_config env c s) = fromJson env c"
  by (simp add: parse_config_def split: option.splits)

lemma language_list_eq:
  "default_langs (fst (parse_langs env (attr env ''rv-langs'') s)) = language_list env"
  using fst_parse_langs [of env _ s init_state] by (simp add: language_list_def)

lemma initialize_url:
  assumes c: "declared (attr env ''th-config'') = Some c"
    and nj: "\<not> truthy_opt (fromJson env c)"
    and ls: "language_list env = JArr ls"
  shows "initialize env init_state =
    (if \<forall>l\<in>set ls. js_string env l \<noteq> None then Inr 0 else Inl TypeError,
     \<lparr>data = (case fromJson env c of None \<Rightarrow> []
              | Some j \<Rightarrow> [(''en'', JObj (angular_merge [] [configDefaults env, j]))]),
      initializePromise = (if \<forall>l\<in>set ls. js_string env l \<noteq> None then Some 0 else None),
      isInitialized = False, heap = [Pending],
      inflight = requests env c 0 0 ls,
      requested = length (requests env c 0 0 ls),
      joining = (if \<forall>l\<in>set ls. js_string env l \<noteq> None then Some 0 else None),
      trace = [ReadAttr ''th-config'', ReadAttr ''rv-langs'', FromJson c]
        @ (case fromJson env c of None \<Rightarrow>
             [ConsoleLog ''Not valid JSON, attempting to load a file with this name'']
           | Some j \<Rightarrow> [])
        @ language_trace env
        @ map (\<lambda>f. HttpGet (fst (snd (snd f)))) (requests env c 0 0 ls)\<rparr>)"
  using c nj
  by (cases "fromJson env c")
     (simp_all add: initialize_def executor_def init_state_def Let_def split_beta language_list_eq ls
       parse_config_def parse_langs_state emit_def http_get_all_eq configInitialized_def
       truthy_opt_def)

lemma initialize_inline:
  assumes c: "declared (attr env ''th-config'') = Some c"
    and j: "fromJson env c = Some C" and t: "truthy C"
  shows "initialize env init_state =
    (Inr 0,
     \<lparr>data = [(''en'', JObj (angular_merge [] [configDefaults env, C]))],
      initializePromise = Some 0, isInitialized = False, heap = [Pending],
      inflight = [], requested = 0, joining = Some 0,
      trace = [ReadAttr ''th-config'', ReadAttr ''rv-langs'', FromJson c] @ language_trace env\<rparr>)"
  using c j t
  by (simp add: initialize_def executor_def init_state_def Let_def split_beta
      parse_config_def parse_langs_state emit_def configInitialized_def truthy_opt_def)

lemma initialize_not_array:
  assumes c: "declared (attr env ''th-config'') = Some c"
    and nj: "\<not> truthy_opt (fromJson env c)"
    and ls: "\<forall>ls. language_list env \<noteq> JArr ls"
  shows "fst (initialize env init_state) = Inl TypeError"
  using c nj ls
  by (cases "language_list env")
     (simp_all add: initialize_def executor_def init_state_def Let_def split_beta language_list_eq
       fst_parse_config emit_def)

lemma initialize_started:
  assumes "initialize env init_state = (Inr p, s1)"
  shows "p = 0 \<and> waiting 0 s1 \<and> status s1 0 = Pending \<and>
         distinct (map fst (inflight s1)) \<and> distinct (map fst (data s1)) \<and>
         (declared (attr env ''th-config'') \<noteq> None \<longrightarrow> joining s1 = Some 0)"
proof (cases "declared (attr env ''th-config'')")
  case None
  with assms show ?thesis
    by (auto simp: initialize_def executor_def init_state_def emit_def configInitialized_def
        waiting_def status_def)
next
  case (Some c)
  show ?thesis
  proof (cases "truthy_opt (fromJson env c)")
    case True
    then obtain C where "fromJson env c = Some C" "truthy C"
      by (auto simp: truthy_opt_def split: option.splits)
    from initialize_inline [OF Some this] assms Some show ?thesis
      by (auto simp: waiting_def status_def)
  next
    case False
    show ?thesis
    proof (cases "\<exists>ls. language_list env = JArr ls")
      case True
      then obtain ls where JArr: "language_list env = JArr ls" by blast
      note init = initialize_url [OF Some False JArr]
      from init assms have all: "\<forall>l\<in>set ls. js_string env l \<noteq> None"
        by (auto split: if_splits)
      have "distinct (map fst (requests env c 0 0 ls))"
        by (simp only: requests_numbers distinct_upt)
      with init assms all Some show ?thesis
        by (auto simp: waiting_def status_def requests_owner split: option.splits)
    next
      case nl: False
      with initialize_not_array [OF Some False] assms show ?thesis by simp
    qed
  qed
qed

lemma initialize_stored: "initializePromise s = Some h \<Longrightarrow> initialize env s = (Inr h, s)"
  by (simp add: initialize_def)

lemma initialize_returns_stored:
  "initialize env s = (Inr h, s1) \<Longrightarrow> initializePromise s1 = Some h"
  by (auto simp: initialize_def Let_def split: option.splits prod.splits)

lemma calls_stored: "initializePromise s = Some h \<Longrightarrow> calls env n s = (replicate n (Inr h), s)"
  by (induction n) (simp_all add: initialize_stored)

lemma executor_keeps_promise:
  "initializePromise (snd (executor env p s)) = initializePromise s"
proof (cases "declared (attr env ''th-config'')")
  case None
  then show ?thesis
    by (simp add: executor_def Let_def emit_def fulfill_def settle_def configInitialized_def)
next
  case (Some c)
  then show ?thesis
    by (cases "fromJson env c")
       (auto simp: executor_def Let_def split_beta emit_def fulfill_def settle_def
         configInitialized_def parse_config_def parse_langs_state http_get_all_eq
         split: json.splits)
qed

lemma requests_urls:
  "map (\<lambda>f. HttpGet (fst (snd (snd f)))) (requests env c p n ls) =
   map (\<lambda>f. HttpGet (fst (snd (snd f)))) (requests env c p' n' ls)"
  by (induction ls arbitrary: n n') (auto split: option.splits)

lemma executor_isInitialized:
  "isInitialized (snd (executor env p s)) = isInitialized s"
proof (cases "declared (attr env ''th-config'')")
  case None
  then show ?thesis
    by (simp add: executor_def Let_def emit_def fulfill_def settle_def configInitialized_def)
next
  case (Some c)
  then show ?thesis
    by (cases "fromJson env c")
       (auto simp: executor_def Let_def split_beta emit_def fulfill_def settle_def
         configInitialized_def parse_config_def parse_langs_state http_get_all_eq
         split: json.splits)
qed

lemma executor_fst:
  "fst (executor env p s) =
     (if isInitialized s then None
      else case declared (attr env ''th-config'') of
             None \<Rightarrow> None
           | Some c \<Rightarrow>
               if truthy_opt (fromJson env c) then None
               else (case language_list env of
                       JArr ls \<Rightarrow> if \<forall>l\<in>set ls. js_string env l \<noteq> None then None
                                 else Some TypeError
                     | _ \<Rightarrow> Some TypeError))"
proof (cases "declared (attr env ''th-config'')")
  case None
  then show ?thesis
    by (simp add: executor_def Let_def emit_def)
next
  case (Some c)
  then show ?thesis
    by (cases "language_list env")
       (simp_all add: executor_def Let_def split_beta emit_def fst_parse_config
         language_list_eq http_get_all_eq)
qed

lemma executor_trace:
  "trace (snd (executor env p s)) =
     trace s @ ReadAttr ''th-config'' # ReadAttr ''rv-langs'' #
     (if isInitialized s then []
      else case declared (attr env ''th-config'') of
             None \<Rightarrow> []
           | Some c \<Rightarrow>
               FromJson c #
               (case fromJson env c of
                  None \<Rightarrow> [ConsoleLog ''Not valid JSON, attempting to load a file with this name'']
                | Some j \<Rightarrow> []) @
               language_trace env @
               (if truthy_opt (fromJson env c) then []
                else case language_list env of
                       JArr ls \<Rightarrow> map (\<lambda>f. HttpGet (fst (snd (snd f)))) (requests env c 0 0 ls)
                     | _ \<Rightarrow> []))"
proof (cases "declared (attr env ''th-config'')")
  case None
  then show ?thesis
    by (simp add: executor_def Let_def emit_def fulfill_def settle_def configInitialized_def)
next
  case (Some c)
  show ?thesis
  proof (cases "fromJson env c")
    case None
    with Some show ?thesis
      using requests_urls [of env c p _ _ 0 0]
      by (cases "language_list env")
         (simp_all add: executor_def Let_def split_beta emit_def fulfill_def settle_def
           parse_config_def parse_langs_state language_list_eq http_get_all_eq truthy_opt_def)
  next
    case (Some j)
    with \<open>declared (attr env ''th-config'') = Some c\<close> show ?thesis
      using requests_urls [of env c p _ _ 0 0]
      by (cases "language_list env")
         (simp_all add: executor_def Let_def split_beta emit_def fulfill_def settle_def
           configInitialized_def
           parse_config_def parse_langs_state language_list_eq http_get_all_eq truthy_opt_def)
  qed
qed

lemma initialize_throws_again:
  assumes "initialize env s = (Inl e, s1)"
  shows "\<exists>s2 out. initialize env s1 = (Inl e, s2) \<and>
           trace s1 = trace s @ ReadAttr ''th-config'' # ReadAttr ''rv-langs'' # out \<and>
           trace s2 = trace s1 @ ReadAttr ''th-config'' # ReadAttr ''rv-langs'' # out"
proof -
  let ?a = "s\<lparr>heap := heap s @ [Pending]\<rparr>"
  let ?b = "s1\<lparr>heap := heap s1 @ [Pending]\<rparr>"
  from assms have n: "initializePromise s = None"
    and x: "executor env (length (heap s)) ?a = (Some e, s1)"
    by (auto simp: initialize_def Let_def split: option.splits prod.splits)
  from x n have n1: "initializePromise s1 = None"
    using executor_keeps_promise [of env "length (heap s)" ?a] by simp
  from x have i: "isInitialized ?b = isInitialized ?a"
    using executor_isInitialized [of env "length (heap s)" ?a] by simp
  have "fst (executor env (length (heap s1)) ?b) = fst (executor env (length (heap s)) ?a)"
    unfolding executor_fst i ..
  with x have f: "fst (executor env (length (heap s1)) ?b) = Some e"
    by simp
  obtain out where o: "trace s1 = trace s @ ReadAttr ''th-config'' # ReadAttr ''rv-langs'' # out"
    and o': "trace (snd (executor env (length (heap s1)) ?b)) =
      trace s1 @ ReadAttr ''th-config'' # ReadAttr ''rv-langs'' # out"
    using x i executor_trace [of env "length (heap s)" ?a]
      executor_trace [of env "length (heap s1)" ?b]
    by simp
  from n1 f have "initialize env s1 = (Inl e, snd (executor env (length (heap s1)) ?b))"
    by (simp add: initialize_def Let_def split_beta)
  with o o' show ?thesis
    by blast
qed

lemma calls_throw:
  assumes "initialize env s = (Inl e, s1)"
    and "trace s1 = trace s @ out"
  shows "fst (calls env n s1) = replicate n (Inl e) \<and>
    trace (snd (calls env n s1)) = trace s1 @ concat (replicate n out)"
  using assms
proof (induction n arbitrary: s s1)
  case 0
  then show ?case by simp
next
  case (Suc n)
  from initialize_throws_again [OF Suc.prems(1)] Suc.prems(2)
  obtain s2 where a: "initialize env s1 = (Inl e, s2)" and t: "trace s2 = trace s1 @ out"
    by auto
  from Suc.IH [OF a t] a t show ?case
    by (simp add: split_beta)
qed

section \<open>The claims\<close>

text \<open>
  An attribute counts as declared when the test the code makes, \<open>if (configAttr)\<close>, passes:
  it is there and it is not the empty string.
\<close>

text \<open>
  C1. The claim: when no config attribute is declared, \<open>initialize\<close> merges the defaults
  alone into the store under \<open>en\<close> and the promise it returns resolves at once. The code
  does the merge, but the \<open>else\<close> branch never calls \<open>fulfill\<close> and starts nothing that
  could: the promise is pending after the call and after every sequence of events.
\<close>

theorem initialize_absent_stays_pending:
  assumes "declared (attr env ''th-config'') = None"
  shows "fst (initialize env init_state) = Inr 0 \<and>
         data (snd (initialize env init_state)) =
           [(''en'', JObj (angular_merge [] [configDefaults env, JObj []]))] \<and>
         status (run env (snd (initialize env init_state)) es) 0 = Pending"
proof -
  let ?s = "snd (initialize env init_state)"
  have j: "joining ?s = None" and i: "inflight ?s = []"
    using assms
    by (simp_all add: initialize_def executor_def init_state_def emit_def configInitialized_def)
  have "status ?s 0 = Pending"
    using assms
    by (simp add: initialize_def executor_def init_state_def emit_def configInitialized_def
        status_def)
  moreover have "fst (initialize env init_state) = Inr 0"
    using assms by (simp add: initialize_def executor_def init_state_def emit_def)
  moreover have "data ?s = [(''en'', JObj (angular_merge [] [configDefaults env, JObj []]))]"
    using assms
    by (simp add: initialize_def executor_def init_state_def emit_def configInitialized_def)
  ultimately show ?thesis by (simp add: run_idle [OF j i])
qed

theorem initialize_absent_stays_pending_witness:
  "declared (attr absent_env ''th-config'') = None \<and>
   fst (initialize absent_env init_state) = Inr 0 \<and>
   data (snd (initialize absent_env init_state)) = [(''en'', sample_defaults)] \<and>
   status (run absent_env (snd (initialize absent_env init_state))
             [Digest, Response 0 (Ok JNull), Digest]) 0 = Pending"
proof -
  have h: "declared (attr absent_env ''th-config'') = None" by code_simp
  have m: "JObj (angular_merge [] [configDefaults absent_env, JObj []]) = sample_defaults"
    by code_simp
  show ?thesis
    using h initialize_absent_stays_pending [OF h, of "[Digest, Response 0 (Ok JNull), Digest]"]
    by (simp add: m)
qed

text \<open>
  C2. With requests in flight, the failure of any one of them rejects the promise of
  \<open>initialize\<close>. Along every run that contains such a failure the promise is pending up to
  the first failure and rejected from then on, whatever comes later: it changes state once.
  The failure leaves the store as it was, with the entries that earlier responses put there.
\<close>

theorem fetch_failure_rejects:
  assumes "initialize env init_state = (Inr p, s1)"
    and "k \<in> fst ` set (inflight (run env s1 es1))"
  shows "(\<exists>m n. 0 < m \<and> 0 < n \<and>
            map (\<lambda>s. status s p) (states env s1 (es1 @ Response k Fail # es2)) =
              replicate m Pending @ replicate n Rejected) \<and>
         status (run env s1 (es1 @ Response k Fail # es2)) p = Rejected \<and>
         data (run env s1 (es1 @ [Response k Fail])) = data (run env s1 es1)"
proof -
  from initialize_started [OF assms(1)]
  have p: "p = 0" and w: "waiting p s1" and st: "status s1 p = Pending" by simp_all
  let ?s = "run env s1 es1"
  have "waiting p ?s" using w by (rule waiting_run)
  moreover obtain f where "find (\<lambda>f. fst f = k) (inflight ?s) = Some f"
    using find_Some_iff_mem [OF assms(2)] by blast
  ultimately have "status (step env ?s (Response k Fail)) p = Rejected"
    by (rule rejected_on_failure)
  then have "status (run env (step env ?s (Response k Fail)) es2) p = Rejected"
    by (simp add: status_run)
  then have 2: "status (run env s1 (es1 @ Response k Fail # es2)) p = Rejected"
    by (simp add: run_append run_Cons)
  have 3: "data (run env s1 (es1 @ [Response k Fail])) = data ?s"
    by (simp add: run_snoc data_step_fail)
  from statuses_until_failure [OF w st assms(2)] 2 3 show ?thesis by blast
qed

theorem fetch_failure_rejects_witness:
  "(initialize url_env init_state = (Inr 0, url_started) \<and>
    1 \<in> fst ` set (inflight (run url_env url_started [Response 0 (Ok (JObj []))]))) \<and>
   map (\<lambda>s. status s 0)
     (states url_env url_started [Response 0 (Ok (JObj [])), Response 1 Fail, Digest]) =
     [Pending, Pending, Rejected, Rejected] \<and>
   status (run url_env url_started [Response 0 (Ok (JObj [])), Response 1 Fail, Digest]) 0
     = Rejected \<and>
   map fst (data (run url_env url_started [Response 0 (Ok (JObj [])), Response 1 Fail])) = [''en'']"
proof -
  have h: "initialize url_env init_state = (Inr 0, url_started)"
    by code_simp
  have k: "1 \<in> fst ` set (inflight (run url_env url_started [Response 0 (Ok (JObj []))]))"
    by code_simp
  have v: "map (\<lambda>s. status s 0)
     (states url_env url_started [Response 0 (Ok (JObj [])), Response 1 Fail, Digest]) =
     [Pending, Pending, Rejected, Rejected]"
    "map fst (data (run url_env url_started [Response 0 (Ok (JObj []))])) = [''en'']"
    by code_simp+
  from fetch_failure_rejects [OF h k, of "[Digest]"] h k v show ?thesis
    by simp
qed

text \<open>
  C3. The claim: for every number of calls, all calls return the same promise, and the
  attributes are read, the texts parsed and the requests issued at most once. The code
  stores the promise only when the executor has returned (``this way initialize can be
  called one time only''). When the executor throws, because the language list parsed to a
  truthy value that is no array or because a language does not convert to a string,
  nothing is stored, and every further call runs the executor again: it throws the same
  exception and repeats on the trace what the first call did, reading the attributes and
  issuing the requests that went out before the exception. Once a call has returned a
  promise, every later call returns it and does nothing else, whatever happened in
  between.
\<close>

theorem initialize_throw_reruns:
  "(initialize env s = (Inr h, s1) \<longrightarrow>
      calls env n (run env s1 es) = (replicate n (Inr h), run env s1 es)) \<and>
   (initialize env s = (Inl e, s1) \<longrightarrow>
      initializePromise s1 = None \<and>
      fst (calls env n s1) = replicate n (Inl e) \<and>
      (\<exists>out. trace s1 = trace s @ ReadAttr ''th-config'' # ReadAttr ''rv-langs'' # out \<and>
             trace (snd (calls env n s1)) =
               trace s1 @ concat (replicate n (ReadAttr ''th-config'' # ReadAttr ''rv-langs'' # out))))"
proof (intro conjI impI)
  assume "initialize env s = (Inr h, s1)"
  then have "initializePromise (run env s1 es) = Some h"
    by (simp add: initialize_returns_stored)
  then show "calls env n (run env s1 es) = (replicate n (Inr h), run env s1 es)"
    by (rule calls_stored)
next
  assume a: "initialize env s = (Inl e, s1)"
  then have n: "initializePromise s = None"
    and x: "s1 = snd (executor env (length (heap s)) (s\<lparr>heap := heap s @ [Pending]\<rparr>))"
    by (auto simp: initialize_def Let_def split: option.splits prod.splits)
  from x n show "initializePromise s1 = None"
    by (simp add: executor_keeps_promise)
  from initialize_throws_again [OF a]
  obtain out where o: "trace s1 = trace s @ ReadAttr ''th-config'' # ReadAttr ''rv-langs'' # out"
    by blast
  from calls_throw [OF a o] show "fst (calls env n s1) = replicate n (Inl e)"
    by simp
  from calls_throw [OF a o, of n] o
  show "\<exists>out. trace s1 = trace s @ ReadAttr ''th-config'' # ReadAttr ''rv-langs'' # out \<and>
      trace (snd (calls env n s1)) =
        trace s1 @ concat (replicate n (ReadAttr ''th-config'' # ReadAttr ''rv-langs'' # out))"
    by blast
qed

theorem initialize_throw_reruns_witness:
  \<open>initialize url_env init_state = (Inr 0, url_started) \<and>
   calls url_env 3 (run url_env url_started [Response 0 Fail]) =
     ([Inr 0, Inr 0, Inr 0], run url_env url_started [Response 0 Fail]) \<and>
   fst (initialize unconvertible_env init_state) = Inl TypeError \<and>
   initializePromise (snd (initialize unconvertible_env init_state)) = None \<and>
   fst (calls unconvertible_env 2 init_state) = [Inl TypeError, Inl TypeError] \<and>
   filter (\<lambda>x. x = HttpGet ''cfg.en.json'' \<or> x = ReadAttr ''th-config'')
       (trace (snd (calls unconvertible_env 2 init_state))) =
     [ReadAttr ''th-config'', HttpGet ''cfg.en.json'',
      ReadAttr ''th-config'', HttpGet ''cfg.en.json''] \<and>
   fst (calls bad_langs_env 2 init_state) = [Inl TypeError, Inl TypeError] \<and>
   filter (\<lambda>x. x = FromJson ''"en"'') (trace (snd (calls bad_langs_env 2 init_state))) =
     [FromJson ''"en"'', FromJson ''"en"'']\<close>
proof -
  have h: "initialize url_env init_state = (Inr 0, url_started)"
    by code_simp
  have b: "fst (initialize unconvertible_env init_state) = Inl TypeError"
    by code_simp
  then have b': "initialize unconvertible_env init_state =
      (Inl TypeError, snd (initialize unconvertible_env init_state))"
    by (metis prod.collapse)
  have v: "fst (calls unconvertible_env 2 init_state) = [Inl TypeError, Inl TypeError]"
    "filter (\<lambda>x. x = HttpGet ''cfg.en.json'' \<or> x = ReadAttr ''th-config'')
       (trace (snd (calls unconvertible_env 2 init_state))) =
     [ReadAttr ''th-config'', HttpGet ''cfg.en.json'',
      ReadAttr ''th-config'', HttpGet ''cfg.en.json'']"
    \<open>fst (calls bad_langs_env 2 init_state) = [Inl TypeError, Inl TypeError]\<close>
    \<open>filter (\<lambda>x. x = FromJson ''"en"'') (trace (snd (calls bad_langs_env 2 init_state))) =
     [FromJson ''"en"'', FromJson ''"en"'']\<close>
    by code_simp+
  show ?thesis
    using h b b' v
      initialize_throw_reruns [of url_env init_state 0 url_started 3 "[Response 0 Fail]"]
      initialize_throw_reruns [of unconvertible_env init_state _
        "snd (initialize unconvertible_env init_state)" _ _ TypeError]
    by (simp add: numeral_3_eq_3)
qed

text \<open>
  C4, as the code has it. The claim covers every valid inline JSON input. The code takes
  the inline branch when \<open>configJson\<close> is truthy: for the valid JSON text \<open>0\<close> (as for
  \<open>null\<close>, \<open>false\<close> and the empty string literal) it stores the defaults under \<open>en\<close> and
  then requests the attribute text as a URL once per language.
\<close>

theorem falsy_inline_counterexample:
  "fromJson zero_env ''0'' = Some (JNum 0) \<and>
   inflight (snd (initialize zero_env init_state)) = [(0, ''en'', ''0'', 0), (1, ''fr'', ''0'', 0)] \<and>
   trace (snd (initialize zero_env init_state)) =
     [ReadAttr ''th-config'', ReadAttr ''rv-langs'', FromJson ''0'', HttpGet ''0'', HttpGet ''0'']"
  by code_simp

text \<open>
  C4, amended. For every inline JSON input \<open>C\<close> whose value is truthy (every object and
  array among them), \<open>initialize\<close> stores the merge of the defaults and \<open>C\<close> under \<open>en\<close> and
  under no other key, requests nothing, and its promise resolves at the next digest;
  \<open>getCurrent\<close> with the language \<open>en\<close> returns that merge. In the merge a key of \<open>C\<close> wins:
  a value that is not a mapping replaces what the defaults had, a mapping is merged into
  the mapping the defaults had under that key, and keys that \<open>C\<close> lacks keep the value of
  the defaults.
\<close>

theorem inline_config_merged:
  assumes c: "declared (attr env ''th-config'') = Some c"
    and j: "fromJson env c = Some C" and t: "truthy C"
  shows "fst (initialize env init_state) = Inr 0 \<and>
    data (run env (snd (initialize env init_state)) es) =
      [(''en'', JObj (angular_merge [] [configDefaults env, C]))] \<and>
    (\<forall>u. HttpGet u \<notin> set (trace (run env (snd (initialize env init_state)) es))) \<and>
    status (run env (snd (initialize env init_state)) (Digest # es)) 0 = Fulfilled \<and>
    (proposedLanguage tr = Some ''en'' \<or> declared (proposedLanguage tr) = None \<and> use tr = Some ''en''
       \<longrightarrow> getCurrent tr (run env (snd (initialize env init_state)) es) =
             Inr (Value (JObj (angular_merge [] [configDefaults env, C])))) \<and>
    (\<forall>kvs k. C = JObj kvs \<and> distinct (map fst kvs) \<longrightarrow>
       map_of (angular_merge [] [configDefaults env, C]) k =
         (case map_of kvs k of
            None \<Rightarrow> map_of (angular_merge [] [configDefaults env]) k
          | Some (JObj sub) \<Rightarrow>
              Some (JObj (merge_keys
                (case map_of (angular_merge [] [configDefaults env]) k of
                   Some (JObj d) \<Rightarrow> d | _ \<Rightarrow> []) sub))
          | Some v \<Rightarrow> Some v))"
proof -
  let ?s1 = "snd (initialize env init_state)"
  let ?M = "JObj (angular_merge [] [configDefaults env, C])"
  note init = initialize_inline [OF c j t]
  have i: "inflight ?s1 = []" by (simp add: init)
  note quiet = run_nothing_inflight [OF i, of env es]
  have 1: "fst (initialize env init_state) = Inr 0" by (simp add: init)
  have 2: "data (run env ?s1 es) = [(''en'', ?M)]"
    using quiet by (simp add: init)
  have 3: "\<forall>u. HttpGet u \<notin> set (trace (run env ?s1 es))"
    using quiet by (auto simp: init language_trace_def split: option.splits)
  have "status (step env ?s1 Digest) 0 = Fulfilled"
    by (simp add: init step_def digest_def fulfill_def settle_def status_def)
  then have 4: "status (run env ?s1 (Digest # es)) 0 = Fulfilled"
    using status_run [of "step env ?s1 Digest" 0 env es] by (simp add: run_def)
  have 5: "getCurrent tr (run env ?s1 es) = Inr (Value ?M)"
    if "proposedLanguage tr = Some ''en'' \<or> declared (proposedLanguage tr) = None \<and> use tr = Some ''en''"
    using that 2 by (auto simp: getCurrent_def declared_def js_get_def)
  have 6: "map_of (angular_merge [] [configDefaults env, C]) k =
         (case map_of kvs k of
            None \<Rightarrow> map_of (angular_merge [] [configDefaults env]) k
          | Some (JObj sub) \<Rightarrow>
              Some (JObj (merge_keys
                (case map_of (angular_merge [] [configDefaults env]) k of
                   Some (JObj d) \<Rightarrow> d | _ \<Rightarrow> []) sub))
          | Some v \<Rightarrow> Some v)"
    if "C = JObj kvs \<and> distinct (map fst kvs)" for kvs k
    using that
    by (auto simp: angular_merge_def map_of_merge_keys split: option.splits json.splits)
  from 1 2 3 4 5 6 show ?thesis by blast
qed

theorem inline_config_merged_witness:
  \<open>(declared (attr inline_env ''th-config'') = Some ''{"title":"Granpa"}'' \<and>
    fromJson inline_env ''{"title":"Granpa"}'' = Some (JObj [(''title'', JStr ''Granpa'')]) \<and>
    truthy (JObj [(''title'', JStr ''Granpa'')])) \<and>
   data (run inline_env (snd (initialize inline_env init_state)) [Digest]) =
     [(''en'', JObj [(''title'', JStr ''Granpa''), (''layout'', JObj [(''lang'', JStr ''en'')])])] \<and>
   status (run inline_env (snd (initialize inline_env init_state)) [Digest]) 0 = Fulfilled \<and>
   getCurrent \<lparr>proposedLanguage = None, use = Some ''en''\<rparr>
       (run inline_env (snd (initialize inline_env init_state)) [Digest]) =
     Inr (Value (JObj [(''title'', JStr ''Granpa''), (''layout'', JObj [(''lang'', JStr ''en'')])])) \<and>
   map_of (angular_merge [] [configDefaults inline_env, JObj [(''title'', JStr ''Granpa'')]]) ''title''
     = Some (JStr ''Granpa'')\<close>
proof -
  have c: \<open>declared (attr inline_env ''th-config'') = Some ''{"title":"Granpa"}''\<close>
    and j: \<open>fromJson inline_env ''{"title":"Granpa"}'' = Some (JObj [(''title'', JStr ''Granpa'')])\<close>
    and t: "truthy (JObj [(''title'', JStr ''Granpa'')])"
    and m: "JObj (angular_merge [] [configDefaults inline_env, JObj [(''title'', JStr ''Granpa'')]])
      = JObj [(''title'', JStr ''Granpa''), (''layout'', JObj [(''lang'', JStr ''en'')])]"
    and d: "declared (proposedLanguage \<lparr>proposedLanguage = None, use = Some ''en''\<rparr>) = None"
    by code_simp+
  from inline_config_merged [OF c j t, of "[Digest]" "\<lparr>proposedLanguage = None, use = Some ''en''\<rparr>"]
    inline_config_merged [OF c j t, of "[]" "\<lparr>proposedLanguage = None, use = Some ''en''\<rparr>"]
    c j t m d
  show ?thesis by simp
qed

text \<open>
  C5, as the code has it. The claim: when the promise resolves, every language of the list
  has an entry in the store. The callback of a request stores something only \<open>if
  (data.data)\<close>: a request that succeeds with an empty body leaves no entry, and the promise
  still resolves.
\<close>

theorem resolved_with_missing_language_counterexample:
  "inflight url_started = [(0, ''en'', ''cfg.en.json'', 0), (1, ''fr'', ''cfg.fr.json'', 0)] \<and>
   status url_half_loaded 0 = Fulfilled \<and>
   map fst (data url_half_loaded) = [''en''] \<and>
   map_of (data url_half_loaded) ''fr'' = None"
  by code_simp

text \<open>
  C5, amended. When the promise of \<open>initialize\<close> has resolved, nothing is in flight any
  more, every request that was issued has succeeded, and every language whose request
  returned truthy data has an entry in the store. When a request has failed, the promise
  is rejected. At every moment no key occurs twice in the store, and the keys are those
  \<open>initialize\<close> itself stored and the languages whose request returned truthy data: a
  language whose request returned nothing has no entry of its own.
\<close>

theorem resolved_after_every_fetch:
  assumes "initialize env init_state = (Inr p, s1)"
  shows "(status (run env s1 es) p = Fulfilled \<longrightarrow>
            inflight (run env s1 es) = [] \<and>
            (\<forall>f\<in>set (inflight s1).
               \<exists>d. first_response (fst f) es = Some (Ok d) \<and>
                   (truthy d \<longrightarrow> map_of (data (run env s1 es)) (fst (snd f)) \<noteq> None))) \<and>
         ((\<exists>f\<in>set (inflight s1). first_response (fst f) es = Some Fail) \<longrightarrow>
            status (run env s1 es) p = Rejected) \<and>
         distinct (map fst (data (run env s1 es))) \<and>
         fst ` set (data (run env s1 es)) \<subseteq>
           fst ` set (data s1) \<union>
           {fst (snd f) | f. f \<in> set (inflight s1) \<and>
              (\<exists>d. first_response (fst f) es = Some (Ok d) \<and> truthy d)}"
proof -
  from initialize_started [OF assms(1)]
  have w: "waiting p s1" and di: "distinct (map fst (inflight s1))"
    and dd: "distinct (map fst (data s1))" by simp_all
  let ?s = "run env s1 es"
  have ws: "waiting p ?s" using w by (rule waiting_run)
  have 2: "distinct (map fst (data ?s))" using dd by (rule distinct_run)
  have 4: "status ?s p = Rejected"
    if "\<exists>f\<in>set (inflight s1). first_response (fst f) es = Some Fail"
    using that rejected_after_failure [OF w] by blast
  have 1: "inflight ?s = []" if "status ?s p = Fulfilled"
    using that ws by (auto simp: waiting_def)
  have 3: "\<exists>d. first_response (fst f) es = Some (Ok d) \<and>
                (truthy d \<longrightarrow> map_of (data ?s) (fst (snd f)) \<noteq> None)"
    if ful: "status ?s p = Fulfilled" and f: "f \<in> set (inflight s1)" for f
  proof (cases "first_response (fst f) es")
    case None
    with f have "f \<in> set (inflight ?s)" by (simp add: inflight_run)
    with 1 [OF ful] show ?thesis by simp
  next
    case (Some r)
    show ?thesis
    proof (cases r)
      case (Ok d)
      have "map_of (data ?s) (fst (snd f)) \<noteq> None" if "truthy d"
        using stored_after_success [OF di f Some [unfolded Ok] that, of env]
        by (simp add: map_of_eq_None_iff)
      with Some Ok show ?thesis by simp
    next
      case Fail
      from rejected_after_failure [OF w f Some [unfolded Fail], of env] ful
      show ?thesis by simp
    qed
  qed
  from 1 2 3 4 keys_run [of env s1 es] show ?thesis by blast
qed

theorem resolved_after_every_fetch_witness:
  "initialize url_env init_state = (Inr 0, url_started) \<and>
   inflight url_started = [(0, ''en'', ''cfg.en.json'', 0), (1, ''fr'', ''cfg.fr.json'', 0)] \<and>
   status url_loaded 0 = Fulfilled \<and> inflight url_loaded = [] \<and>
   map_of (data url_loaded) ''fr'' \<noteq> None \<and> map fst (data url_loaded) = [''fr'', ''en''] \<and>
   first_response 1 [Response 1 Fail] = Some Fail \<and> status url_failed 0 = Rejected"
proof -
  have h: "initialize url_env init_state = (Inr 0, url_started)"
    by code_simp
  have v: "status url_loaded 0 = Fulfilled" "map fst (data url_loaded) = [''fr'', ''en'']"
    "inflight url_started = [(0, ''en'', ''cfg.en.json'', 0), (1, ''fr'', ''cfg.fr.json'', 0)]"
    "map_of (data url_loaded) ''fr'' \<noteq> None" "status url_failed 0 = Rejected"
    by code_simp+
  from resolved_after_every_fetch [OF h,
      of "[Response 1 (Ok (JObj [(''title'', JStr ''carte'')])), Response 0 (Ok (JObj []))]"]
    resolved_after_every_fetch [OF h, of "[Response 1 Fail]"] h v
  show ?thesis
    by (simp add: url_loaded_def)
qed

text \<open>
  C6, as the code has it. The claim says that \<open>ready(extra)\<close> waits on the promises of
  \<open>extra\<close> once the initialization promise has settled, resolved or rejected. In the code
  \<open>$q.all(nextPromises)\<close> is called in the \<open>then\<close> callback only: after a rejection that
  callback is skipped and the promise of \<open>ready\<close> is resolved by the \<open>catch\<close> callback while
  promises of \<open>extra\<close> are still pending.
\<close>

theorem ready_skips_extra_counterexample:
  \<open>status url_failed 0 = Rejected \<and>
   ready url_failed [Pending] = Inr (Fulfilled, [ConsoleLog ''"ready" function failed''])\<close>
  by code_simp

text \<open>
  C6, amended. Once \<open>initialize\<close> has stored its promise, \<open>ready(extra)\<close> is pending while
  that promise is pending. When it has resolved, \<open>ready\<close> waits on the promises of \<open>extra\<close>
  together: it is pending until all of them have resolved or one of them has been
  rejected, and then it is resolved. When the initialization promise has been rejected,
  \<open>ready\<close> is resolved without waiting on \<open>extra\<close>.
\<close>

theorem ready_outcome:
  assumes "initializePromise s = Some p"
  shows \<open>ready s extra =
     Inr (case status s p of
            Pending \<Rightarrow> (Pending, [])
          | Rejected \<Rightarrow> (Fulfilled, [ConsoleLog ''"ready" function failed''])
          | Fulfilled \<Rightarrow>
              (if Rejected \<in> set extra then
                 (Fulfilled,
                  [ConsoleLog ''Ready promise resolved.'', ConsoleLog ''"ready" function failed''])
               else if Pending \<in> set extra then (Pending, [ConsoleLog ''Ready promise resolved.''])
               else (Fulfilled, [ConsoleLog ''Ready promise resolved.''])))\<close>
  using assms
  by (simp add: ready_def q_then_def q_catch_def q_all_def split: pstate.splits)

theorem ready_outcome_witness:
  "initializePromise url_loaded = Some 0 \<and> status url_loaded 0 = Fulfilled \<and>
   ready url_loaded [Fulfilled, Pending] = Inr (Pending, [ConsoleLog ''Ready promise resolved.''])"
proof -
  have h: "initializePromise url_loaded = Some 0" by code_simp
  have st: "status url_loaded 0 = Fulfilled" by code_simp
  show ?thesis
    using h st ready_outcome [OF h, of "[Fulfilled, Pending]"] by simp
qed

text \<open>
  C7, as the code has it. The claim says that \<open>ready([])\<close> never throws. Before
  \<open>initialize\<close> has stored a promise, \<open>initializePromise\<close> is undefined and \<open>ready\<close> throws a
  TypeError.
\<close>

theorem ready_throws_counterexample:
  "initializePromise init_state = None \<and> ready init_state [] = Inl TypeError"
  by code_simp

text \<open>
  C7, amended. Once \<open>initialize\<close> has returned its promise, \<open>ready([])\<close> never throws, and at
  any moment at which that promise has settled \<open>ready([])\<close> is resolved: after a rejection
  the \<open>catch\<close> callback has written its line on the console and the caller of \<open>ready\<close> sees
  no failure. On a page with a config attribute \<open>ready([])\<close> does not hang: as soon as
  every request that was issued has been answered, successfully or not, and the digest
  has run, the promise has settled and \<open>ready([])\<close> is resolved, and stays so.
\<close>

theorem ready_empty_settles:
  assumes "initialize env init_state = (Inr p, s1)"
  shows \<open>ready (run env s1 es'') [] \<noteq> Inl TypeError \<and>
         (status (run env s1 es'') p = Fulfilled \<longrightarrow>
            ready (run env s1 es'') [] = Inr (Fulfilled, [ConsoleLog ''Ready promise resolved.''])) \<and>
         (status (run env s1 es'') p = Rejected \<longrightarrow>
            ready (run env s1 es'') [] = Inr (Fulfilled, [ConsoleLog ''"ready" function failed''])) \<and>
         (declared (attr env ''th-config'') \<noteq> None \<and>
          (\<forall>f\<in>set (inflight s1). first_response (fst f) es \<noteq> None) \<longrightarrow>
            status (run env s1 (es @ Digest # es')) p \<noteq> Pending \<and>
            (\<exists>out. ready (run env s1 (es @ Digest # es')) [] = Inr (Fulfilled, out)))\<close>
proof -
  have ip: "initializePromise (run env s1 xs) = Some p" for xs
    using initialize_returns_stored [OF assms(1)] by simp
  have r: "\<exists>out. ready t [] = Inr (Fulfilled, out)"
    if "initializePromise t = Some p" "status t p \<noteq> Pending" for t
    using that
    by (simp add: ready_def q_then_def q_catch_def q_all_def split: pstate.splits)
  have rf: "ready t [] = Inr (Fulfilled, [ConsoleLog ''Ready promise resolved.''])"
    if "initializePromise t = Some p" "status t p = Fulfilled" for t
    using that
    by (simp add: ready_def q_then_def q_catch_def q_all_def)
  have rj: "ready t [] = Inr (Fulfilled, [ConsoleLog ''\"ready\" function failed''])"
    if "initializePromise t = Some p" "status t p = Rejected" for t
    using that
    by (simp add: ready_def q_then_def q_catch_def q_all_def)
  have nt: "ready (run env s1 es'') [] \<noteq> Inl TypeError"
    using ip [of es''] by (simp add: ready_def)
  have st: "status (run env s1 (es @ Digest # es')) p \<noteq> Pending"
    if d: "declared (attr env ''th-config'') \<noteq> None"
      and a: "\<forall>f\<in>set (inflight s1). first_response (fst f) es \<noteq> None"
  proof -
    from initialize_started [OF assms(1)] d
    have w: "waiting p s1" and j: "joining s1 = Some p" by simp_all
    let ?s = "run env s1 es"
    have i: "inflight ?s = []"
      using a by (simp add: inflight_run filter_empty_conv)
    have ws: "waiting p ?s" using w by (rule waiting_run)
    have js: "joining ?s = Some p \<or> status ?s p \<noteq> Pending"
      using w j by (simp add: joined_run)
    from settled_after_digest [OF ws js i]
    have "status (run env (step env ?s Digest) es') p \<noteq> Pending"
      by (simp add: status_run)
    then show ?thesis
      by (simp add: run_append run_Cons)
  qed
  from nt rf [OF ip] rj [OF ip] st r [OF ip] show ?thesis
    by blast
qed

theorem ready_empty_settles_witness:
  \<open>initialize url_env init_state = (Inr 0, url_started) \<and>
   (declared (attr url_env ''th-config'') \<noteq> None \<and>
    inflight url_started = [(0, ''en'', ''cfg.en.json'', 0), (1, ''fr'', ''cfg.fr.json'', 0)] \<and>
    first_response 0 [Response 1 Fail, Response 0 (Ok (JObj []))] \<noteq> None \<and>
    first_response 1 [Response 1 Fail, Response 0 (Ok (JObj []))] \<noteq> None) \<and>
   status (run url_env url_started [Response 1 Fail, Response 0 (Ok (JObj [])), Digest]) 0
     = Rejected \<and>
   ready (run url_env url_started [Response 1 Fail, Response 0 (Ok (JObj [])), Digest]) [] =
     Inr (Fulfilled, [ConsoleLog ''"ready" function failed'']) \<and>
   status (run url_env url_started [Response 1 (Ok JNull), Response 0 (Ok (JObj []))]) 0
     = Fulfilled \<and>
   ready (run url_env url_started [Response 1 (Ok JNull), Response 0 (Ok (JObj []))]) [] =
     Inr (Fulfilled, [ConsoleLog ''Ready promise resolved.''])\<close>
proof -
  have h: "initialize url_env init_state = (Inr 0, url_started)"
    and d: "declared (attr url_env ''th-config'') \<noteq> None"
    and i: "inflight url_started =
      [(0, ''en'', ''cfg.en.json'', 0), (1, ''fr'', ''cfg.fr.json'', 0)]"
    and st: "status (run url_env url_started
      [Response 1 Fail, Response 0 (Ok (JObj [])), Digest]) 0 = Rejected"
    and sf: "status (run url_env url_started
      [Response 1 (Ok JNull), Response 0 (Ok (JObj []))]) 0 = Fulfilled"
    by code_simp+
  have a: "\<forall>f\<in>set (inflight url_started).
      first_response (fst f) [Response 1 Fail, Response 0 (Ok (JObj []))] \<noteq> None"
    by (simp add: i)
  from ready_empty_settles [OF h, of "[Response 1 Fail, Response 0 (Ok (JObj [])), Digest]"
      "[Response 1 Fail, Response 0 (Ok (JObj []))]" "[]"]
    ready_empty_settles [OF h, of "[Response 1 (Ok JNull), Response 0 (Ok (JObj []))]"]
    h d a i st sf
  show ?thesis
    by simp
qed



text \<open>
  C9, as the code has it. The claim says that the result is undefined when the key was
  never populated. \<open>service.data\<close> is a plain object and \<open>service.data[currentLang]\<close> also
  finds what the object inherits: for the tag \<open>constructor\<close> the result is the inherited
  \<open>constructor\<close>, with nothing stored under that key.
\<close>

theorem inherited_member_counterexample:
  "''constructor'' \<notin> fst ` set (data url_loaded) \<and>
   getCurrent \<lparr>proposedLanguage = None, use = Some ''constructor''\<rparr> url_loaded =
     Inr (Builtin ''constructor'') \<and>
   getCurrent \<lparr>proposedLanguage = None, use = Some ''constructor''\<rparr> url_loaded \<noteq> Inr Undefined"
  by code_simp

text \<open>
  C9, amended. \<open>getCurrent\<close> takes the proposed language when \<open>$translate\<close> reports one (a
  non-empty tag) and the committed language otherwise, keeps what stands in front of the
  first \<open>-\<close> of the tag, and reads \<open>service.data\<close> under that key. A key that was populated
  gives its entry. A key that was never populated gives undefined, unless it names a
  member of \<open>Object.prototype\<close>, which is then the result; and once a configuration has
  been stored under the language \<open>__proto__\<close>, a key that was never populated gives the
  property of that configuration, if it has one of that name.
\<close>

theorem getCurrent_lookup:
  assumes "proposedLanguage tr = Some t \<and> t \<noteq> [] \<or>
           (proposedLanguage tr = None \<or> proposedLanguage tr = Some []) \<and> use tr = Some t"
    and "key = takeWhile (\<lambda>c. c \<noteq> CHR ''-'') t"
  shows "(\<forall>v. map_of (data s) key = Some v \<longrightarrow> getCurrent tr s = Inr (Value v)) \<and>
         (key \<notin> fst ` set (data s) \<and> ''__proto__'' \<notin> fst ` set (data s) \<longrightarrow>
            getCurrent tr s = Inr (if key \<in> set object_prototype then Builtin key else Undefined)) \<and>
         (\<forall>proto. key \<notin> fst ` set (data s) \<and> map_of (data s) ''__proto__'' = Some (JObj proto) \<longrightarrow>
            getCurrent tr s =
              Inr (case map_of proto key of
                     Some v \<Rightarrow> Value v
                   | None \<Rightarrow> if key \<in> set object_prototype then Builtin key else Undefined))"
proof -
  have g: "getCurrent tr s = Inr (js_get (data s) key)"
    using assms by (auto simp: getCurrent_def declared_def hd_split)
  have n: "map_of (data s) k = None" if "k \<notin> fst ` set (data s)" for k
    using that by (simp add: map_of_eq_None_iff)
  show ?thesis
    by (auto simp: g js_get_def inherited_def n split: option.splits)
qed

theorem getCurrent_lookup_witness:
  "(proposedLanguage \<lparr>proposedLanguage = Some ''fr-CA'', use = Some ''en''\<rparr> = Some ''fr-CA''
      \<and> ''fr-CA'' \<noteq> [] \<and> ''fr'' = takeWhile (\<lambda>c. c \<noteq> CHR ''-'') ''fr-CA'')
   \<and> getCurrent \<lparr>proposedLanguage = Some ''fr-CA'', use = Some ''en''\<rparr> url_loaded
      = Inr (Value (JObj [(''title'', JStr ''carte''), (''layout'', JObj [(''lang'', JStr ''en'')])]))
   \<and> (''fr'' \<notin> fst ` set (data init_state) \<and> ''__proto__'' \<notin> fst ` set (data init_state))
   \<and> getCurrent \<lparr>proposedLanguage = Some ''fr-CA'', use = Some ''en''\<rparr> init_state = Inr Undefined
   \<and> getCurrent \<lparr>proposedLanguage = Some [], use = Some ''valueOf''\<rparr> init_state
      = Inr (Builtin ''valueOf'')
   \<and> (''en'' \<notin> fst ` set (data proto_loaded) \<and>
      map_of (data proto_loaded) ''__proto__'' =
        Some (JObj [(''title'', JStr ''map''), (''layout'', JObj [(''lang'', JStr ''en'')]),
                    (''en'', JStr ''hidden'')]))
   \<and> getCurrent \<lparr>proposedLanguage = None, use = Some ''en''\<rparr> proto_loaded
      = Inr (Value (JStr ''hidden''))"
proof -
  have d: "data url_loaded =
      [(''fr'', JObj [(''title'', JStr ''carte''), (''layout'', JObj [(''lang'', JStr ''en'')])]),
       (''en'', JObj [(''title'', JStr ''map''), (''layout'', JObj [(''lang'', JStr ''en'')])])]"
    and p: "data proto_loaded =
      [(''__proto__'', JObj [(''title'', JStr ''map''), (''layout'', JObj [(''lang'', JStr ''en'')]),
                            (''en'', JStr ''hidden'')])]"
    by code_simp+
  have k: "''fr'' = takeWhile (\<lambda>c. c \<noteq> CHR ''-'') ''fr-CA''" by simp
  have o: "''fr'' \<notin> set object_prototype" "''valueOf'' \<in> set object_prototype"
    by code_simp+
  show ?thesis
    using getCurrent_lookup [of "\<lparr>proposedLanguage = Some ''fr-CA'', use = Some ''en''\<rparr>" "''fr-CA''"
        "''fr''" url_loaded]
      getCurrent_lookup [of "\<lparr>proposedLanguage = Some ''fr-CA'', use = Some ''en''\<rparr>" "''fr-CA''"
        "''fr''" init_state]
      getCurrent_lookup [of "\<lparr>proposedLanguage = Some [], use = Some ''valueOf''\<rparr>" "''valueOf''"
        "''valueOf''" init_state]
      getCurrent_lookup [of "\<lparr>proposedLanguage = None, use = Some ''en''\<rparr>" "''en''"
        "''en''" proto_loaded] o
    by (simp add: d p init_state_def)
qed

text \<open>
  C10, as the code has it. The claim: for every language the URL is the template with the
  first \<open>$LANG\<close> replaced by the language code. \<open>replace\<close> expands dollar patterns in the
  replacement: for the language \<open>$&\<close> the URL is the template itself.
\<close>

theorem dollar_language_counterexample:
  \<open>language_list dollar_env = JArr [JStr ''$&''] \<and>
   inflight (snd (initialize dollar_env init_state)) = [(0, ''$&'', ''cfg.$LANG.json'', 0)] \<and>
   ''cfg.$LANG.json'' \<noteq> ''cfg.'' @ ''$&'' @ ''.json''\<close>
  by code_simp

text \<open>
  C10, amended. In the URL-template branch the requests go out in the order of the
  language list, one for each of the languages in front of the first language that does
  not convert to a string; \<open>initialize\<close> returns its promise exactly when every language
  converts, and then there is one request per language. For every request whose language code contains none
  of the patterns \<open>$$\<close>, \<open>$&\<close>, \<open>$`\<close>, \<open>$'\<close>, the URL is the template with the leftmost
  occurrence of \<open>$LANG\<close> replaced by the code and everything else, later occurrences of
  \<open>$LANG\<close> included, copied; a template without \<open>$LANG\<close> is requested as it is.
\<close>

theorem url_replaces_first_placeholder:
  assumes c: "declared (attr env ''th-config'') = Some c"
    and nj: "\<not> truthy_opt (fromJson env c)"
    and ls: "language_list env = JArr ls"
  shows "(\<forall>i<length (inflight (snd (initialize env init_state))).
       \<exists>lang url. i < length ls \<and> js_string env (ls ! i) = Some lang \<and>
          inflight (snd (initialize env init_state)) ! i = (i, lang, url, 0) \<and>
          HttpGet url \<in> set (trace (snd (initialize env init_state))) \<and>
          (\<not> has_dollar_pattern lang \<longrightarrow>
             (\<exists>b a. c = b @ ''$LANG'' @ a \<and>
                    (\<forall>b' a'. c = b' @ ''$LANG'' @ a' \<longrightarrow> length b \<le> length b') \<and>
                    url = b @ lang @ a)
             \<or> ((\<forall>b a. c \<noteq> b @ ''$LANG'' @ a) \<and> url = c))) \<and>
    (fst (initialize env init_state) = Inr 0 \<longleftrightarrow> (\<forall>l\<in>set ls. js_string env l \<noteq> None)) \<and>
    (fst (initialize env init_state) = Inr 0 \<longleftrightarrow>
       length (inflight (snd (initialize env init_state))) = length ls) \<and>
    length (inflight (snd (initialize env init_state))) =
      length (takeWhile (\<lambda>l. js_string env l \<noteq> None) ls)"
proof (intro conjI allI impI)
  note init = initialize_url [OF c nj ls]
  let ?s1 = "snd (initialize env init_state)"
  have f: "inflight ?s1 = requests env c 0 0 ls"
    by (simp add: init)
  show all: "fst (initialize env init_state) = Inr 0 \<longleftrightarrow> (\<forall>l\<in>set ls. js_string env l \<noteq> None)"
    by (simp add: init)
  show "fst (initialize env init_state) = Inr 0 \<longleftrightarrow> length (inflight ?s1) = length ls"
    by (simp only: all f length_requests)
  show "length (inflight ?s1) = length (takeWhile (\<lambda>l. js_string env l \<noteq> None) ls)"
    by (simp only: f length_requests_takeWhile)
  fix i
  assume i: "i < length (inflight ?s1)"
  then have i': "i < length (requests env c 0 0 ls)" by (simp only: f)
  from nth_requests [OF i'] obtain lang where
    lang: "js_string env (ls ! i) = Some lang"
      "requests env c 0 0 ls ! i = (0 + i, lang, js_replace c ''$LANG'' lang, 0)"
    by blast
  let ?url = "js_replace c ''$LANG'' lang"
  have il: "i < length ls" using i' length_requests_le [of env c 0 0 ls] by simp
  have n: "inflight ?s1 ! i = (i, lang, ?url, 0)"
    using lang(2) by (simp add: f)
  have "(i, lang, ?url, 0) \<in> set (requests env c 0 0 ls)"
    using i' lang(2) by (metis add_0 nth_mem)
  then have "HttpGet (fst (snd (snd (i, lang, ?url, 0::nat))))
      \<in> (\<lambda>f. HttpGet (fst (snd (snd f)))) ` set (requests env c 0 0 ls)"
    by (rule imageI)
  moreover have "(\<lambda>f. HttpGet (fst (snd (snd f)))) ` set (requests env c 0 0 ls)
      \<subseteq> set (trace ?s1)"
    by (auto simp: init)
  ultimately have g: "HttpGet ?url \<in> set (trace ?s1)"
    by auto
  have r: "(\<exists>b a. c = b @ ''$LANG'' @ a \<and>
                  (\<forall>b' a'. c = b' @ ''$LANG'' @ a' \<longrightarrow> length b \<le> length b') \<and>
                  ?url = b @ lang @ a)
           \<or> ((\<forall>b a. c \<noteq> b @ ''$LANG'' @ a) \<and> ?url = c)"
    if "\<not> has_dollar_pattern lang"
    using js_replace_first [OF that, of c "''$LANG''"] .
  from il lang(1) n g r
  show "\<exists>lang url. i < length ls \<and> js_string env (ls ! i) = Some lang \<and>
          inflight ?s1 ! i = (i, lang, url, 0) \<and>
          HttpGet url \<in> set (trace ?s1) \<and>
          (\<not> has_dollar_pattern lang \<longrightarrow>
             (\<exists>b a. c = b @ ''$LANG'' @ a \<and>
                    (\<forall>b' a'. c = b' @ ''$LANG'' @ a' \<longrightarrow> length b \<le> length b') \<and>
                    url = b @ lang @ a)
             \<or> ((\<forall>b a. c \<noteq> b @ ''$LANG'' @ a) \<and> url = c))"
    by blast
qed

theorem url_replaces_first_placeholder_witness:
  \<open>(declared (attr plain_dollar_env ''th-config'') = Some ''$LANG/cfg.$LANG.json'' \<and>
    \<not> truthy_opt (fromJson plain_dollar_env ''$LANG/cfg.$LANG.json'') \<and>
    language_list plain_dollar_env = JArr [JStr ''a$b''] \<and>
    0 < length (inflight (snd (initialize plain_dollar_env init_state))) \<and>
    js_string plain_dollar_env ([JStr ''a$b''] ! 0) = Some ''a$b'' \<and>
    \<not> has_dollar_pattern ''a$b'') \<and>
   inflight (snd (initialize plain_dollar_env init_state)) ! 0 =
     (0, ''a$b'', ''a$b/cfg.$LANG.json'', 0) \<and>
   fst (initialize plain_dollar_env init_state) = Inr 0 \<and>
   fst (initialize unconvertible_env init_state) = Inl TypeError \<and>
   inflight (snd (initialize unconvertible_env init_state)) = [(0, ''en'', ''cfg.en.json'', 0)]\<close>
proof -
  have c: "declared (attr plain_dollar_env ''th-config'') = Some ''$LANG/cfg.$LANG.json''"
    and nj: "\<not> truthy_opt (fromJson plain_dollar_env ''$LANG/cfg.$LANG.json'')"
    and ls: "language_list plain_dollar_env = JArr [JStr ''a$b'']"
    and l: "0 < length (inflight (snd (initialize plain_dollar_env init_state)))"
    and t: "js_string plain_dollar_env ([JStr ''a$b''] ! 0) = Some ''a$b''"
    and d: "\<not> has_dollar_pattern ''a$b''"
    and v: "inflight (snd (initialize plain_dollar_env init_state)) ! 0 =
      (0, ''a$b'', ''a$b/cfg.$LANG.json'', 0)"
      "fst (initialize unconvertible_env init_state) = Inl TypeError"
      "inflight (snd (initialize unconvertible_env init_state)) = [(0, ''en'', ''cfg.en.json'', 0)]"
    by code_simp+
  from url_replaces_first_placeholder [OF c nj ls]
  have "fst (initialize plain_dollar_env init_state) = Inr 0 \<longleftrightarrow>
      (\<forall>l\<in>set [JStr ''a$b'']. js_string plain_dollar_env l \<noteq> None)"
    by blast
  with t have "fst (initialize plain_dollar_env init_state) = Inr 0" by simp
  with c nj ls l t d v show ?thesis by simp
qed

end
